theory Spec2Isabelle
  imports Main "HOL-Library.AList"
begin


section \<open>Data model (types.ts)\<close>

text \<open>
  Block heights are JavaScript numbers; they are modelled as unbounded integers
  (no claim depends on floating point rounding). JavaScript strings are
  \<^typ>\<open>string\<close>.
\<close>

type_synonym BlockHeight = int
type_synonym BlockHeightDelta = int

text \<open>The payload of \<open>Failure\<close> has type \<open>unknown\<close> and is never read; it is left out.\<close>

datatype ExecutionStatusView =
    Failure
  | SuccessValue "string option"
  | SuccessReceiptId string
  | Unknown

record IndexerExecutionOutcomeWithReceipt =
  r_status :: ExecutionStatusView
  r_receipt_ids :: "string list"
  r_logs :: "string list"
  r_receipt_id :: string
  r_receiver_id :: string

record IndexerTransactionWithOutcome =
  tx_hash :: string
  tx_signer_id :: string
  tx_receiver_id :: string
  tx_receipt_ids :: "string list"

text \<open>\<open>chunk\<close> is optional; when present it holds the transactions of the shard.\<close>

record IndexerShard =
  shard_id :: int
  chunk :: "IndexerTransactionWithOutcome list option"
  receipt_execution_outcomes :: "IndexerExecutionOutcomeWithReceipt list"

text \<open>\<open>timestamp_nanosec\<close> is \<open>string | number\<close>.\<close>

datatype Timestamp = TsString string | TsNumber int

record StreamerMessage =
  height :: BlockHeight
  timestamp_nanosec :: Timestamp
  shards :: "IndexerShard list"

subsection \<open>JavaScript helpers\<close>

text \<open>
  \<open>String(x)\<close> is the identity on a string and \<open>Number::toString\<close> on a number. A
  number-typed timestamp counts nanoseconds and is taken to be integral;
  \<open>TsNumber n\<close> stands for the Number value of \<open>n\<close>, the double nearest to \<open>n\<close>.

  \<open>digits\<close> are the decimal digits of a non-negative integer, \<open>bit_length\<close> is the
  number of its binary digits.
\<close>

function digits :: "int \<Rightarrow> string" where
  "digits n =
     (if n < 10 then [char_of (48 + n)]
      else digits (n div 10) @ [char_of (48 + n mod 10)])"
  by pat_completeness auto
termination
  by (relation "measure nat") auto

declare digits.simps [simp del]

function bit_length :: "int \<Rightarrow> nat" where
  "bit_length n = (if n \<le> 0 then 0 else Suc (bit_length (n div 2)))"
  by pat_completeness auto
termination
  by (relation "measure nat") auto

declare bit_length.simps [simp del]

text \<open>
  The Number value of a non-negative integer: itself below \<open>2^53\<close>, and otherwise
  rounded to 53 significant bits, to nearest and on a tie to the even significand.
\<close>

definition Number_value :: "int \<Rightarrow> int" where
  "Number_value n =
     (if n < 9007199254740992 then n
      else let j = bit_length n - 53;
               q = n div 2 ^ j;
               r = n mod 2 ^ j;
               h = 2 ^ (j - 1)
           in (if r > h \<or> (r = h \<and> odd q) then q + 1 else q) * 2 ^ j)"

text \<open>
  \<open>Number::toString\<close> takes the fewest significant digits \<open>k\<close> for which some
  \<open>s \<times> 10^(n - k)\<close> has the Number value \<open>d\<close>, and among these the one nearest to \<open>d\<close>
  (the even \<open>s\<close> on a tie). \<open>pick d k\<close> is that value for a given \<open>k\<close>, if there is
  one: it is the multiple of \<open>10^(n - k)\<close> just below or just above \<open>d\<close>.
\<close>

definition pick :: "int \<Rightarrow> nat \<Rightarrow> int option" where
  "pick d k =
     (let g = 10 ^ (length (digits d) - k);
          lo = (d div g) * g;
          hi = lo + g;
          oklo = (Number_value lo = d);
          okhi = (Number_value hi = d)
      in if oklo \<and> okhi then
           (if d - lo < hi - d then Some lo
            else if hi - d < d - lo then Some hi
            else if even (d div g) then Some lo else Some hi)
         else if oklo then Some lo
         else if okhi then Some hi
         else None)"

function shortest :: "int \<Rightarrow> nat \<Rightarrow> int" where
  "shortest d k =
     (if k \<ge> length (digits d) then d
      else (case pick d k of Some v \<Rightarrow> v | None \<Rightarrow> shortest d (Suc k)))"
  by pat_completeness auto
termination
  by (relation "measure (\<lambda>(d, k). length (digits d) - k)") auto

declare shortest.simps [simp del]

text \<open>
  The digits of the chosen value when it is below \<open>10^21\<close>, and otherwise the
  exponential form \<open>d.ddde+x\<close>, or \<open>Infinity\<close> beyond the largest double.
\<close>

definition Number_toString :: "int \<Rightarrow> string" where
  "Number_toString n =
     (let d = Number_value n;
          v = shortest d 1
      in if v < 1000000000000000000000 then digits v
         else if d \<ge> 2 ^ 1024 then ''Infinity''
         else let s = rev (dropWhile (\<lambda>c. c = CHR ''0'') (rev (digits v)));
                  x = digits (int (length (digits v)) - 1)
              in if length s = 1 then s @ ''e+'' @ x
                 else hd s # CHR ''.'' # tl s @ ''e+'' @ x)"

definition js_String :: "Timestamp \<Rightarrow> string" where
  "js_String t =
     (case t of
        TsString s \<Rightarrow> s
      | TsNumber n \<Rightarrow> (if n < 0 then CHR ''-'' # Number_toString (- n) else Number_toString n))"

text \<open>
  A JavaScript \<open>Map\<close> keeps its keys in insertion order; \<open>set\<close> on a key that is
  present replaces the value where it stands, on a new key appends. This is
  \<^const>\<open>AList.update\<close> on an association list; \<open>get\<close> is \<^const>\<open>map_of\<close>,
  \<open>delete\<close> is \<^const>\<open>AList.delete\<close>, \<open>values()\<close> is \<open>map snd\<close>.
\<close>

type_synonym ('k, 'v) jsmap = "('k \<times> 'v) list"

abbreviation Map_get :: "('k, 'v) jsmap \<Rightarrow> 'k \<Rightarrow> 'v option" where
  "Map_get m k \<equiv> map_of m k"

abbreviation Map_has :: "('k, 'v) jsmap \<Rightarrow> 'k \<Rightarrow> bool" where
  "Map_has m k \<equiv> map_of m k \<noteq> None"

abbreviation Map_set :: "'k \<Rightarrow> 'v \<Rightarrow> ('k, 'v) jsmap \<Rightarrow> ('k, 'v) jsmap" where
  "Map_set k v m \<equiv> AList.update k v m"

abbreviation Map_delete :: "'k \<Rightarrow> ('k, 'v) jsmap \<Rightarrow> ('k, 'v) jsmap" where
  "Map_delete k m \<equiv> AList.delete k m"

abbreviation Map_values :: "('k, 'v) jsmap \<Rightarrow> 'v list" where
  "Map_values m \<equiv> map snd m"

section \<open>Receipts and transactions (indexer.ts)\<close>

record TransactionReceipt =
  receipt :: IndexerExecutionOutcomeWithReceipt
  block_height :: BlockHeight
  block_timestamp_nanosec :: string

text \<open>\<open>receipts: Map<string, TransactionReceipt | null>\<close>; \<open>None\<close> is \<open>null\<close>.\<close>

record IncompleteTransaction =
  it_transaction :: IndexerTransactionWithOutcome
  it_receipts :: "(string, TransactionReceipt option) jsmap"

record CompleteTransaction =
  ct_transaction :: IndexerTransactionWithOutcome
  ct_receipts :: "TransactionReceipt list"

record BlockProcessingOptions =
  opt_height :: BlockHeight
  preprocess :: bool
  preprocess_new_transactions :: bool
  handle_raw_events :: bool
  handle_preprocessed_transactions_by_indexer :: bool

text \<open>\<open>isReceiptSuccessful\<close> of \<open>near_utils\<close>: \<open>None\<close> is \<open>undefined\<close>.\<close>

fun isReceiptSuccessful :: "IndexerExecutionOutcomeWithReceipt \<Rightarrow> bool option" where
  "isReceiptSuccessful rc =
     (case r_status rc of
        Failure \<Rightarrow> Some False
      | SuccessValue _ \<Rightarrow> Some True
      | SuccessReceiptId _ \<Rightarrow> Some True
      | Unknown \<Rightarrow> None)"

text \<open>\<open>DefaultTransactionReceipt.isSuccessful\<close>.\<close>

definition Default_isSuccessful :: "TransactionReceipt \<Rightarrow> bool \<Rightarrow> bool" where
  "Default_isSuccessful this ifUnknown =
     (case isReceiptSuccessful (receipt this) of None \<Rightarrow> ifUnknown | Some r \<Rightarrow> r)"

text \<open>
  The \<open>isSuccessful\<close> method of the receipt record that \<open>processBlock\<close> builds
  (the \<open>default\<close> branch of its \<open>switch\<close> is excluded by the type of the status).
\<close>

fun isSuccessful :: "TransactionReceipt \<Rightarrow> bool \<Rightarrow> bool" where
  "isSuccessful this ifUnknown =
     (case r_status (receipt this) of
        Failure \<Rightarrow> False
      | SuccessValue _ \<Rightarrow> True
      | SuccessReceiptId _ \<Rightarrow> True
      | Unknown \<Rightarrow> ifUnknown)"

text \<open>The \<open>allReceiptsSuccessful\<close> method of the completed transaction.\<close>

definition allReceiptsSuccessful :: "CompleteTransaction \<Rightarrow> bool" where
  "allReceiptsSuccessful this = list_all (\<lambda>r. isSuccessful r True) (ct_receipts this)"

section \<open>The indexer's hooks and the trace of calls\<close>

text \<open>
  Every call the code makes on a collaborator is logged as an event. A hook of the
  indexer is optional (\<open>None\<close>: the method is not defined); a hook that is present
  takes its arguments and the calls made so far (which stand for whatever state the
  user's object keeps) and either resolves (\<open>None\<close>) or rejects with an error.
  Hooks are taken not to change the objects they are given.
\<close>

datatype event =
    EvProcessBlock StreamerMessage
  | EvProcessTransaction IndexerTransactionWithOutcome StreamerMessage
  | EvProcessReceipt IndexerExecutionOutcomeWithReceipt StreamerMessage
  | EvOnReceipt TransactionReceipt IncompleteTransaction StreamerMessage
  | EvOnTransaction CompleteTransaction StreamerMessage
  | EvProcessBlockEnd StreamerMessage
  | EvFinalize
  | EvAwaitHandle
  | EvAfterBlock StreamerMessage BlockProcessingOptions bool
  | EvSave BlockHeight
  | EvLoad
  | EvStream BlockHeight "BlockHeight option"

type_synonym ('a, 'e) hook = "('a \<Rightarrow> event list \<Rightarrow> 'e option) option"

record 'e Indexer =
  ix_processBlock :: "(StreamerMessage, 'e) hook"
  ix_processTransaction :: "(IndexerTransactionWithOutcome \<times> StreamerMessage, 'e) hook"
  ix_processReceipt :: "(IndexerExecutionOutcomeWithReceipt \<times> StreamerMessage, 'e) hook"
  ix_onTransaction :: "(CompleteTransaction \<times> StreamerMessage, 'e) hook"
  ix_onReceipt :: "(TransactionReceipt \<times> IncompleteTransaction \<times> StreamerMessage, 'e) hook"
  ix_processBlockEnd :: "(StreamerMessage, 'e) hook"
  ix_finalize :: "(unit, 'e) hook"

text \<open>
  \<open>if (hook && cond) await hook(args)\<close>: nothing happens when the hook is absent or
  the condition is false; otherwise the call is logged and its outcome returned.
\<close>

definition invoke :: "bool \<Rightarrow> ('a, 'e) hook \<Rightarrow> 'a \<Rightarrow> event \<Rightarrow> event list \<Rightarrow> 'e option \<times> event list" where
  "invoke cond hk a ev tr =
     (case hk of
        None \<Rightarrow> (None, tr)
      | Some f \<Rightarrow> if cond then (f a tr, tr @ [ev]) else (None, tr))"

section \<open>The correlation state machine (InternalIndexerState)\<close>

record InternalIndexerState =
  pendingTransactions :: "(string, IncompleteTransaction) jsmap"
  receiptToTx :: "(string, string) jsmap"

definition new_InternalIndexerState :: InternalIndexerState where
  "new_InternalIndexerState = \<lparr>pendingTransactions = [], receiptToTx = []\<rparr>"

text \<open>
  A computation returns the error it threw (if any), the state and the trace as
  they were when it returned or threw: JavaScript does not undo mutations.
\<close>

type_synonym ('e, 's) outcome = "'e option \<times> 's \<times> event list"

definition andThen :: "('e, 's) outcome \<Rightarrow> ('s \<Rightarrow> event list \<Rightarrow> ('e, 's) outcome) \<Rightarrow> ('e, 's) outcome" where
  "andThen r f = (case r of (Some e, s, tr) \<Rightarrow> (Some e, s, tr) | (None, s, tr) \<Rightarrow> f s tr)"

text \<open>The body of \<open>for (const tx of chunk.transactions)\<close>.\<close>

definition register_tx :: "BlockProcessingOptions \<Rightarrow> IndexerTransactionWithOutcome \<Rightarrow> InternalIndexerState \<Rightarrow> InternalIndexerState" where
  "register_tx options tx s =
     (if preprocess options then
        let s1 = s\<lparr>receiptToTx := fold (\<lambda>r. Map_set r (tx_hash tx)) (tx_receipt_ids tx) (receiptToTx s)\<rparr>
        in if preprocess_new_transactions options then
             let receipts = fold (\<lambda>r. Map_set r None) (tx_receipt_ids tx) []
             in s1\<lparr>pendingTransactions :=
                     Map_set (tx_hash tx) \<lparr>it_transaction = tx, it_receipts = receipts\<rparr>
                       (pendingTransactions s1)\<rparr>
           else s1
      else s)"

definition tx_step :: "'e Indexer \<Rightarrow> StreamerMessage \<Rightarrow> BlockProcessingOptions \<Rightarrow> IndexerTransactionWithOutcome
    \<Rightarrow> InternalIndexerState \<Rightarrow> event list \<Rightarrow> ('e, InternalIndexerState) outcome" where
  "tx_step indexer message options tx s tr =
     (let s1 = register_tx options tx s;
          (e, tr1) = invoke (handle_raw_events options) (ix_processTransaction indexer)
                       (tx, message) (EvProcessTransaction tx message) tr
      in (e, s1, tr1))"

fun tx_loop :: "'e Indexer \<Rightarrow> StreamerMessage \<Rightarrow> BlockProcessingOptions \<Rightarrow> IndexerTransactionWithOutcome list
    \<Rightarrow> InternalIndexerState \<Rightarrow> event list \<Rightarrow> ('e, InternalIndexerState) outcome" where
  "tx_loop indexer message options [] s tr = (None, s, tr)"
| "tx_loop indexer message options (tx # txs) s tr =
     andThen (tx_step indexer message options tx s tr) (tx_loop indexer message options txs)"

text \<open>\<open>for (const shard of message.shards) { if (!chunk) continue; ... }\<close>.\<close>

fun shards_tx_loop :: "'e Indexer \<Rightarrow> StreamerMessage \<Rightarrow> BlockProcessingOptions \<Rightarrow> IndexerShard list
    \<Rightarrow> InternalIndexerState \<Rightarrow> event list \<Rightarrow> ('e, InternalIndexerState) outcome" where
  "shards_tx_loop indexer message options [] s tr = (None, s, tr)"
| "shards_tx_loop indexer message options (shard # rest) s tr =
     (case chunk shard of
        None \<Rightarrow> shards_tx_loop indexer message options rest s tr
      | Some txs \<Rightarrow>
          andThen (tx_loop indexer message options txs s tr)
            (shards_tx_loop indexer message options rest))"

text \<open>
  The follow-on loop of a resolved receipt: every new receipt id is pointed at the
  owning transaction and added to the transaction's mapping as \<open>null\<close> unless it is
  already a key there.
\<close>

fun follow_on :: "string \<Rightarrow> string list \<Rightarrow> (string, string) jsmap \<times> (string, TransactionReceipt option) jsmap
    \<Rightarrow> (string, string) jsmap \<times> (string, TransactionReceipt option) jsmap" where
  "follow_on txId [] (r2t, rs) = (r2t, rs)"
| "follow_on txId (newReceiptId # ids) (r2t, rs) =
     follow_on txId ids
       (Map_set newReceiptId txId r2t,
        if \<not> Map_has rs newReceiptId then Map_set newReceiptId None rs else rs)"

definition make_processed :: "IndexerExecutionOutcomeWithReceipt \<Rightarrow> StreamerMessage \<Rightarrow> TransactionReceipt" where
  "make_processed rc message =
     \<lparr>receipt = rc, block_height = height message,
      block_timestamp_nanosec = js_String (timestamp_nanosec message)\<rparr>"

text \<open>
  The correlated part of the receipt loop's body, entered when the receipt id has
  an owner \<open>txId\<close> and that owner is an open transaction \<open>incomplete\<close>.
\<close>

definition resolve_receipt :: "'e Indexer \<Rightarrow> StreamerMessage \<Rightarrow> BlockProcessingOptions \<Rightarrow> IndexerExecutionOutcomeWithReceipt
    \<Rightarrow> string \<Rightarrow> IncompleteTransaction \<Rightarrow> InternalIndexerState \<Rightarrow> event list \<Rightarrow> ('e, InternalIndexerState) outcome" where
  "resolve_receipt indexer message options rc txId incomplete s tr =
     (let processed = make_processed rc message;
          (e1, tr1) = invoke (handle_preprocessed_transactions_by_indexer options) (ix_onReceipt indexer)
                        (processed, incomplete, message) (EvOnReceipt processed incomplete message) tr
      in andThen (e1, s, tr1) (\<lambda>s tr1.
           let rs1 = Map_set (r_receipt_id rc) (Some processed) (it_receipts incomplete);
               (r2t, rs2) = follow_on txId (r_receipt_ids rc) (receiptToTx s, rs1);
               incomplete' = incomplete\<lparr>it_receipts := rs2\<rparr>;
               s1 = s\<lparr>receiptToTx := r2t,
                      pendingTransactions := Map_set txId incomplete' (pendingTransactions s)\<rparr>;
               all = Map_values rs2
           in if list_all (\<lambda>r. r \<noteq> None) all then
                let s2 = s1\<lparr>pendingTransactions := Map_delete txId (pendingTransactions s1)\<rparr>;
                    complete = \<lparr>ct_transaction = it_transaction incomplete', ct_receipts = map the all\<rparr>;
                    (e2, tr2) = invoke (handle_preprocessed_transactions_by_indexer options) (ix_onTransaction indexer)
                                  (complete, message) (EvOnTransaction complete message) tr1
                in (e2, s2, tr2)
              else (None, s1, tr1)))"

text \<open>
  \<open>if (txId && options.preprocess)\<close>: \<open>txId\<close> is falsy when the id has no owner and
  also when the owner's hash is the empty string.
\<close>

definition receipt_step :: "'e Indexer \<Rightarrow> StreamerMessage \<Rightarrow> BlockProcessingOptions \<Rightarrow> IndexerExecutionOutcomeWithReceipt
    \<Rightarrow> InternalIndexerState \<Rightarrow> event list \<Rightarrow> ('e, InternalIndexerState) outcome" where
  "receipt_step indexer message options rc s tr =
     andThen
       (case Map_get (receiptToTx s) (r_receipt_id rc) of
          None \<Rightarrow> (None, s, tr)
        | Some txId \<Rightarrow>
            if txId \<noteq> [] \<and> preprocess options then
              (case Map_get (pendingTransactions s) txId of
                 None \<Rightarrow> (None, s, tr)
               | Some incomplete \<Rightarrow> resolve_receipt indexer message options rc txId incomplete s tr)
            else (None, s, tr))
       (\<lambda>s tr.
          let (e, tr') = invoke (handle_raw_events options) (ix_processReceipt indexer)
                           (rc, message) (EvProcessReceipt rc message) tr
          in (e, s, tr'))"

fun receipt_loop :: "'e Indexer \<Rightarrow> StreamerMessage \<Rightarrow> BlockProcessingOptions \<Rightarrow> IndexerExecutionOutcomeWithReceipt list
    \<Rightarrow> InternalIndexerState \<Rightarrow> event list \<Rightarrow> ('e, InternalIndexerState) outcome" where
  "receipt_loop indexer message options [] s tr = (None, s, tr)"
| "receipt_loop indexer message options (rc # rcs) s tr =
     andThen (receipt_step indexer message options rc s tr) (receipt_loop indexer message options rcs)"

fun shards_receipt_loop :: "'e Indexer \<Rightarrow> StreamerMessage \<Rightarrow> BlockProcessingOptions \<Rightarrow> IndexerShard list
    \<Rightarrow> InternalIndexerState \<Rightarrow> event list \<Rightarrow> ('e, InternalIndexerState) outcome" where
  "shards_receipt_loop indexer message options [] s tr = (None, s, tr)"
| "shards_receipt_loop indexer message options (shard # rest) s tr =
     andThen (receipt_loop indexer message options (receipt_execution_outcomes shard) s tr)
       (shards_receipt_loop indexer message options rest)"

definition processBlock :: "'e Indexer \<Rightarrow> StreamerMessage \<Rightarrow> BlockProcessingOptions
    \<Rightarrow> InternalIndexerState \<Rightarrow> event list \<Rightarrow> ('e, InternalIndexerState) outcome" where
  "processBlock indexer message options s tr =
     (let (e0, tr0) = invoke (handle_raw_events options) (ix_processBlock indexer) message (EvProcessBlock message) tr
      in andThen (e0, s, tr0) (\<lambda>s tr.
         andThen (shards_tx_loop indexer message options (shards message) s tr) (\<lambda>s tr.
         andThen (shards_receipt_loop indexer message options (shards message) s tr) (\<lambda>s tr.
           let (e, tr') = invoke True (ix_processBlockEnd indexer) message (EvProcessBlockEnd message) tr
           in (e, s, tr')))))"

section \<open>Ranges, resume cursor and options (indexer.ts)\<close>

text \<open>\<open>Number.MAX_SAFE_INTEGER\<close> and the genesis height of \<open>near_utils\<close>.\<close>

definition MAX_SAFE_INTEGER :: int where
  "MAX_SAFE_INTEGER = 9007199254740991"

definition MAINNET_GENESIS_BLOCK_HEIGHT :: BlockHeight where
  "MAINNET_GENESIS_BLOCK_HEIGHT = 9820210"

text \<open>
  The resume-cursor collaborator. \<open>load\<close> resolves with a height or \<open>undefined\<close>
  (\<open>Inr None\<close>) or rejects (\<open>Inl\<close>); \<open>save\<close> resolves or rejects. Both see the
  calls made so far.
\<close>

record 'e SaveLocation =
  sl_load :: "event list \<Rightarrow> 'e + BlockHeight option"
  sl_save :: "BlockHeight \<Rightarrow> event list \<Rightarrow> 'e option"

datatype AutoContinueEnd = Height BlockHeight | Count BlockHeightDelta | Infinite

record 'e AutoContinue =
  save_location :: "'e SaveLocation"
  start_height_if_does_not_exist :: BlockHeight
  ac_end :: AutoContinueEnd

text \<open>
  \<open>return (await this.save_location.load()) ?? this.start_height_if_does_not_exist\<close>:
  a rejected \<open>load\<close> rejects \<open>getStartBlock\<close>; \<open>??\<close> replaces \<open>undefined\<close> only.
\<close>

definition getStartBlock :: "'e AutoContinue \<Rightarrow> event list \<Rightarrow> ('e + BlockHeight) \<times> event list" where
  "getStartBlock this tr =
     (case sl_load (save_location this) tr of
        Inl e \<Rightarrow> (Inl e, tr @ [EvLoad])
      | Inr None \<Rightarrow> (Inr (start_height_if_does_not_exist this), tr @ [EvLoad])
      | Inr (Some h) \<Rightarrow> (Inr h, tr @ [EvLoad]))"

definition AutoContinue_range :: "'e AutoContinue \<Rightarrow> event list \<Rightarrow> ('e + BlockHeight \<times> BlockHeight) \<times> event list" where
  "AutoContinue_range this tr =
     (case getStartBlock this tr of
        (Inl e, tr1) \<Rightarrow> (Inl e, tr1)
      | (Inr start, tr1) \<Rightarrow>
          (Inr (start,
                case ac_end this of
                  Height h \<Rightarrow> h
                | Count c \<Rightarrow> start + c
                | Infinite \<Rightarrow> MAX_SAFE_INTEGER), tr1))"

text \<open>\<open>AutoContinue.afterBlock\<close>, the post-processor.\<close>

definition afterBlock :: "'e AutoContinue \<Rightarrow> StreamerMessage \<Rightarrow> BlockProcessingOptions \<Rightarrow> bool
    \<Rightarrow> event list \<Rightarrow> 'e option \<times> event list" where
  "afterBlock this block options stopping tr =
     (let tr1 = tr @ [EvAfterBlock block options stopping]
      in if \<not> stopping then
           (sl_save (save_location this) (height block + 1) tr1, tr1 @ [EvSave (height block + 1)])
         else (None, tr1))"

datatype 'e BlockRange =
    Range BlockHeight "BlockHeight option"
  | AutoContinueRange "'e AutoContinue"

record PreprocessTransactionsSettings =
  prefetch_blocks :: int
  postfetch_blocks :: int

record 'e IndexerOptions =
  stop_on_error :: bool
  block_range :: "'e BlockRange"
  preprocess_transactions :: "PreprocessTransactionsSettings option"
  genesis_block_height :: BlockHeight
  ctrl_c_handler :: bool

definition DefaultPreprocessSettings :: PreprocessTransactionsSettings where
  "DefaultPreprocessSettings = \<lparr>prefetch_blocks = 100, postfetch_blocks = 100\<rparr>"

definition defaultOptions :: "'e BlockRange \<Rightarrow> 'e IndexerOptions" where
  "defaultOptions r =
     \<lparr>stop_on_error = False, block_range = r, preprocess_transactions = None,
      genesis_block_height = MAINNET_GENESIS_BLOCK_HEIGHT, ctrl_c_handler = True\<rparr>"

section \<open>The orchestrator (runIndexer)\<close>

text \<open>
  The fate of a promise that the run awaits: it is fulfilled, it is rejected with
  an error, or it never settles.
\<close>

datatype 'e settled = Fulfilled | Rejected 'e | Pending

text \<open>
  What \<open>streamer.stream(first, last)\<close> resolves with. \<open>st_handle\<close> is the fate of
  the promise \<open>handle\<close>. The receiver yields the messages \<open>st_receiver\<close> and then
  its next step has the fate \<open>st_receiver_end\<close>: it reports the end of the
  iteration (\<open>Fulfilled\<close>), it throws (\<open>Rejected\<close>), or it never answers
  (\<open>Pending\<close>), as the iterator of a queue that is never closed does. A run over a
  receiver that yields for ever, and that no error aborts, does not end either; it
  is not a value of this type.
\<close>

record 'e Streamed =
  st_handle :: "'e settled"
  st_receiver :: "StreamerMessage list"
  st_receiver_end :: "'e settled"

type_synonym 'e MessageStreamer = "BlockHeight \<Rightarrow> BlockHeight option \<Rightarrow> 'e + 'e Streamed"

record HeightRange =
  range_start :: BlockHeight
  range_end :: BlockHeight

text \<open>
  The constants \<open>runIndexer\<close> computes before the loop. \<open>x ?? d\<close> replaces
  \<open>undefined\<close> only; \<open>x ? a : b\<close> takes \<open>b\<close> also when \<open>x\<close> is the number \<open>0\<close>.
\<close>

record 'e Plan =
  start_block_height :: BlockHeight
  end_block_height :: "BlockHeight option"
  post_processor :: "'e AutoContinue option"
  preprocess_on :: bool
  prefetchRange :: HeightRange
  postfetchRange :: HeightRange
  startWithPrefetch :: BlockHeight
  endWithPostfetch :: "BlockHeight option"

definition resolve_range :: "'e IndexerOptions \<Rightarrow> event list
    \<Rightarrow> ('e + BlockHeight \<times> BlockHeight option \<times> 'e AutoContinue option) \<times> event list" where
  "resolve_range options tr =
     (case block_range options of
        Range start_inclusive end_exclusive \<Rightarrow> (Inr (start_inclusive, end_exclusive, None), tr)
      | AutoContinueRange auto \<Rightarrow>
          (case AutoContinue_range auto tr of
             (Inl e, tr1) \<Rightarrow> (Inl e, tr1)
           | (Inr (rstart, rend), tr1) \<Rightarrow>
               (Inr (rstart, if rend = MAX_SAFE_INTEGER then None else Some rend, Some auto), tr1)))"

definition make_plan :: "'e IndexerOptions \<Rightarrow> BlockHeight \<Rightarrow> BlockHeight option \<Rightarrow> 'e AutoContinue option \<Rightarrow> 'e Plan" where
  "make_plan options start_h end_h pp =
     (let prefetch = (case preprocess_transactions options of None \<Rightarrow> 0 | Some p \<Rightarrow> prefetch_blocks p);
          postfetch = (case preprocess_transactions options of None \<Rightarrow> 0 | Some p \<Rightarrow> postfetch_blocks p);
          prefetchRangeStart = max (start_h - prefetch) (genesis_block_height options)
      in \<lparr>start_block_height = start_h,
          end_block_height = end_h,
          post_processor = pp,
          preprocess_on = (preprocess_transactions options \<noteq> None),
          prefetchRange = \<lparr>range_start = prefetchRangeStart, range_end = start_h\<rparr>,
          postfetchRange =
            \<lparr>range_start = (case end_h of None \<Rightarrow> MAX_SAFE_INTEGER | Some e \<Rightarrow> e),
             range_end = (case end_h of None \<Rightarrow> MAX_SAFE_INTEGER
                          | Some e \<Rightarrow> if e \<noteq> 0 then e + postfetch else MAX_SAFE_INTEGER)\<rparr>,
          startWithPrefetch = max (genesis_block_height options) (start_h - prefetch),
          endWithPostfetch = (case end_h of None \<Rightarrow> None
                              | Some e \<Rightarrow> if e \<noteq> 0 then Some (e + postfetch) else None)\<rparr>)"

definition inPrefetch :: "'e Plan \<Rightarrow> StreamerMessage \<Rightarrow> bool" where
  "inPrefetch plan message =
     (height message \<ge> range_start (prefetchRange plan) \<and> height message < range_end (prefetchRange plan))"

definition inPostfetch :: "'e Plan \<Rightarrow> StreamerMessage \<Rightarrow> bool" where
  "inPostfetch plan message =
     (height message \<ge> range_start (postfetchRange plan) \<and> height message < range_end (postfetchRange plan))"

definition processingOptions :: "'e Plan \<Rightarrow> StreamerMessage \<Rightarrow> BlockProcessingOptions" where
  "processingOptions plan message =
     \<lparr>opt_height = height message,
      preprocess = preprocess_on plan,
      preprocess_new_transactions = (\<not> inPostfetch plan message),
      handle_raw_events = (\<not> inPostfetch plan message \<and> \<not> inPrefetch plan message),
      handle_preprocessed_transactions_by_indexer = (\<not> inPrefetch plan message)\<rparr>"

text \<open>
  \<open>if (!inPrefetch && post_processor) await post_processor.afterBlock(message,
  processingOptions, inPostfetch)\<close>.
\<close>

definition post_process :: "'e Plan \<Rightarrow> StreamerMessage \<Rightarrow> event list \<Rightarrow> 'e option \<times> event list" where
  "post_process plan message tr =
     (case post_processor plan of
        None \<Rightarrow> (None, tr)
      | Some pp \<Rightarrow>
          if \<not> inPrefetch plan message then
            afterBlock pp message (processingOptions plan message) (inPostfetch plan message) tr
          else (None, tr))"

text \<open>
  The body of the \<open>for await\<close> loop. The flag \<open>hasSentPostfetchMessage\<close> is written
  and never read, and is left out. An error of \<open>processBlock\<close> is rethrown under
  \<open>stop_on_error\<close> and dropped otherwise; an error of the post-processor is not caught.
\<close>

definition loop_body :: "'e Indexer \<Rightarrow> 'e IndexerOptions \<Rightarrow> 'e Plan \<Rightarrow> StreamerMessage
    \<Rightarrow> InternalIndexerState \<Rightarrow> event list \<Rightarrow> ('e, InternalIndexerState) outcome" where
  "loop_body indexer options plan message s tr =
     (case processBlock indexer message (processingOptions plan message) s tr of
        (e, s1, tr1) \<Rightarrow>
          if e \<noteq> None \<and> stop_on_error options then (e, s1, tr1)
          else (case post_process plan message tr1 of (e2, tr2) \<Rightarrow> (e2, s1, tr2)))"

fun receiver_loop :: "'e Indexer \<Rightarrow> 'e IndexerOptions \<Rightarrow> 'e Plan \<Rightarrow> StreamerMessage list
    \<Rightarrow> InternalIndexerState \<Rightarrow> event list \<Rightarrow> ('e, InternalIndexerState) outcome" where
  "receiver_loop indexer options plan [] s tr = (None, s, tr)"
| "receiver_loop indexer options plan (message # rest) s tr =
     andThen (loop_body indexer options plan message s tr) (receiver_loop indexer options plan rest)"

text \<open>
  The \<open>for await\<close> loop as a whole: it ends when the body throws (the receiver is
  not asked again), and otherwise with the fate of the receiver after its last
  message.
\<close>

type_synonym 'e run = "'e settled \<times> InternalIndexerState \<times> event list"

definition try_block :: "'e Indexer \<Rightarrow> 'e IndexerOptions \<Rightarrow> 'e Plan \<Rightarrow> 'e Streamed
    \<Rightarrow> InternalIndexerState \<Rightarrow> event list \<Rightarrow> 'e run" where
  "try_block indexer options plan streamed s tr =
     (case receiver_loop indexer options plan (st_receiver streamed) s tr of
        (Some e, s1, tr1) \<Rightarrow> (Rejected e, s1, tr1)
      | (None, s1, tr1) \<Rightarrow> (st_receiver_end streamed, s1, tr1))"

text \<open>
  \<open>finally { await handle; if (indexer.finalize) await indexer.finalize(); }\<close>. The
  block is entered when the \<open>try\<close> block has ended, normally or with an error; a
  loop that waits for ever for the receiver never reaches it. A handle that is
  rejected ends the block (and the run) with its error before \<open>finalize\<close>, a handle
  that never settles keeps the run waiting there. An error thrown inside the
  \<open>finally\<close> block replaces the outcome of the \<open>try\<close> block.
\<close>

definition finally_block :: "'e Indexer \<Rightarrow> 'e Streamed \<Rightarrow> 'e run \<Rightarrow> 'e run" where
  "finally_block indexer streamed r =
     (case r of
        (Pending, s, tr) \<Rightarrow> (Pending, s, tr)
      | (p, s, tr) \<Rightarrow>
          let tr1 = tr @ [EvAwaitHandle]
          in (case st_handle streamed of
                Rejected he \<Rightarrow> (Rejected he, s, tr1)
              | Pending \<Rightarrow> (Pending, s, tr1)
              | Fulfilled \<Rightarrow>
                  (case invoke True (ix_finalize indexer) () EvFinalize tr1 of
                     (Some fe, tr2) \<Rightarrow> (Rejected fe, s, tr2)
                   | (None, tr2) \<Rightarrow> (p, s, tr2))))"

definition run_stream :: "'e Indexer \<Rightarrow> 'e IndexerOptions \<Rightarrow> 'e Plan \<Rightarrow> 'e Streamed
    \<Rightarrow> InternalIndexerState \<Rightarrow> event list \<Rightarrow> 'e run" where
  "run_stream indexer options plan streamed s tr =
     finally_block indexer streamed (try_block indexer options plan streamed s tr)"

text \<open>
  \<open>runIndexer\<close>: the fate of the promise it returns, the correlation state and the
  calls made. A rejected \<open>range()\<close> or \<open>stream()\<close> rejects the run before the \<open>try\<close>
  statement is reached.
\<close>

definition runIndexer :: "'e Indexer \<Rightarrow> 'e MessageStreamer \<Rightarrow> 'e IndexerOptions \<Rightarrow> 'e run" where
  "runIndexer indexer streamer options =
     (let indexerState = new_InternalIndexerState
      in case resolve_range options [] of
           (Inl e, tr) \<Rightarrow> (Rejected e, indexerState, tr)
         | (Inr (start_h, end_h, pp), tr) \<Rightarrow>
             let plan = make_plan options start_h end_h pp;
                 tr1 = tr @ [EvStream (startWithPrefetch plan) (endWithPostfetch plan)]
             in (case streamer (startWithPrefetch plan) (endWithPostfetch plan) of
                   Inl e \<Rightarrow> (Rejected e, indexerState, tr1)
                 | Inr streamed \<Rightarrow> run_stream indexer options plan streamed indexerState tr1))"

section \<open>The second state machine (IndexerState)\<close>

text \<open>
  The class \<open>IndexerState\<close> is translated on its own, statement by statement, from
  its source; it has the counter \<open>blocksReceived\<close> in addition.
\<close>

record IndexerState =
  is_pendingTransactions :: "(string, IncompleteTransaction) jsmap"
  is_receiptToTx :: "(string, string) jsmap"
  blocksReceived :: nat

definition new_IndexerState :: IndexerState where
  "new_IndexerState = \<lparr>is_pendingTransactions = [], is_receiptToTx = [], blocksReceived = 0\<rparr>"

fun IS_isSuccessful :: "TransactionReceipt \<Rightarrow> bool \<Rightarrow> bool" where
  "IS_isSuccessful this ifUnknown =
     (case r_status (receipt this) of
        Failure \<Rightarrow> False
      | SuccessValue _ \<Rightarrow> True
      | SuccessReceiptId _ \<Rightarrow> True
      | Unknown \<Rightarrow> ifUnknown)"

definition IS_allReceiptsSuccessful :: "CompleteTransaction \<Rightarrow> bool" where
  "IS_allReceiptsSuccessful this = list_all (\<lambda>r. IS_isSuccessful r True) (ct_receipts this)"












section \<open>Driving a state machine over a sequence of inputs\<close>

text \<open>
  Each input is a message with its options; the machine is called on every input
  in turn, whether or not the previous call threw, and the outcome of every call
  is kept.
\<close>

fun feed :: "'e Indexer \<Rightarrow> (StreamerMessage \<times> BlockProcessingOptions) list
    \<Rightarrow> InternalIndexerState \<Rightarrow> event list \<Rightarrow> 'e option list \<times> InternalIndexerState \<times> event list" where
  "feed indexer [] s tr = ([], s, tr)"
| "feed indexer ((message, options) # rest) s tr =
     (case processBlock indexer message options s tr of
        (e, s1, tr1) \<Rightarrow>
          (case feed indexer rest s1 tr1 of (es, s', tr') \<Rightarrow> (e # es, s', tr')))"


text \<open>The state of the second machine without its counter, and back.\<close>

definition forget_counter :: "IndexerState \<Rightarrow> InternalIndexerState" where
  "forget_counter s = \<lparr>pendingTransactions = is_pendingTransactions s, receiptToTx = is_receiptToTx s\<rparr>"

definition with_counter :: "nat \<Rightarrow> InternalIndexerState \<Rightarrow> IndexerState" where
  "with_counter n s =
     \<lparr>is_pendingTransactions = pendingTransactions s, is_receiptToTx = receiptToTx s, blocksReceived = n\<rparr>"

definition outcome_with_counter :: "nat \<Rightarrow> ('e, InternalIndexerState) outcome \<Rightarrow> ('e, IndexerState) outcome" where
  "outcome_with_counter n r = (case r of (e, s, tr) \<Rightarrow> (e, with_counter n s, tr))"


section \<open>The fetch pipelines (neardata.ts)\<close>

subsection \<open>AsyncQueue and its consumer\<close>

text \<open>
  \<open>q_values\<close>, \<open>q_resolvers\<close> (how many resolvers wait) and \<open>q_done\<close> are the fields
  of \<open>AsyncQueue\<close>. The queue has one consumer, the generator \<open>iterator()\<close>;
  \<open>q_yielded\<close> lists what the generator has yielded so far and \<open>q_returned\<close> says
  that it has returned.
\<close>

record AsyncQueue =
  q_values :: "StreamerMessage list"
  q_resolvers :: nat
  q_done :: bool
  q_yielded :: "StreamerMessage list"
  q_returned :: bool

definition new_AsyncQueue :: AsyncQueue where
  "new_AsyncQueue =
     \<lparr>q_values = [], q_resolvers = 0, q_done = False, q_yielded = [], q_returned = False\<rparr>"

text \<open>
  \<open>push\<close>: dropped when the queue is done; handed to a waiting resolver (the
  generator then yields it) when there is one; appended to \<open>values\<close> otherwise.
\<close>

definition queue_push :: "StreamerMessage \<Rightarrow> AsyncQueue \<Rightarrow> AsyncQueue" where
  "queue_push v q =
     (if q_done q then q
      else if q_resolvers q > 0 then
        q\<lparr>q_resolvers := q_resolvers q - 1, q_yielded := q_yielded q @ [v]\<rparr>
      else q\<lparr>q_values := q_values q @ [v]\<rparr>)"

text \<open>\<open>close\<close>: every waiting resolver is resolved with \<open>done\<close>, and the generator returns.\<close>

definition queue_close :: "AsyncQueue \<Rightarrow> AsyncQueue" where
  "queue_close q =
     q\<lparr>q_done := True, q_resolvers := 0,
       q_returned := (if q_resolvers q > 0 then True else q_returned q)\<rparr>"

text \<open>
  One round of the generator's loop, run when the consumer asks for the next
  message (it does not ask while it waits or after the generator returned).
\<close>

definition queue_next :: "AsyncQueue \<Rightarrow> AsyncQueue" where
  "queue_next q =
     (if q_returned q \<or> q_resolvers q > 0 then q
      else (case q_values q of
              v # vs \<Rightarrow> q\<lparr>q_values := vs, q_yielded := q_yielded q @ [v]\<rparr>
            | [] \<Rightarrow> if q_done q then q\<lparr>q_returned := True\<rparr>
                    else q\<lparr>q_resolvers := q_resolvers q + 1\<rparr>))"

subsection \<open>The message source and the order of completions\<close>

text \<open>
  The provider's answer for a height, once a call for it resolves, is \<open>src h\<close>:
  a message or \<open>null\<close> (the height is absent). Which outstanding call settles next,
  and whether it resolves or rejects, is given by a schedule; \<open>Pull\<close> is the
  consumer asking the queue for the next message.
\<close>

type_synonym MessageSource = "BlockHeight \<Rightarrow> StreamerMessage option"

datatype sched_event = Resolve BlockHeight | Reject BlockHeight | Pull

subsection \<open>ParallelProviderStreamer\<close>

text \<open>
  The variables of \<open>stream\<close>'s closure. \<open>awaiting\<close> lists the heights whose call
  of \<open>getMessage\<close> has not resolved yet (one per running \<open>scheduleOne\<close>);
  \<open>attempts\<close> lists every call of \<open>getMessage\<close> in call order.
\<close>

record Pipeline =
  nextToEmit :: BlockHeight
  results :: "(BlockHeight, StreamerMessage option) jsmap"
  active :: int
  scheduled :: BlockHeight
  awaiting :: "BlockHeight list"
  attempts :: "BlockHeight list"
  queue :: AsyncQueue

text \<open>The part of \<open>scheduleOne(h)\<close> that runs before its first \<open>await\<close>.\<close>

definition scheduleOne :: "BlockHeight \<Rightarrow> Pipeline \<Rightarrow> Pipeline" where
  "scheduleOne h p = p\<lparr>active := active p + 1, awaiting := awaiting p @ [h], attempts := attempts p @ [h]\<rparr>"

lemma length_delete_less:
  "Map_has al k \<Longrightarrow> length (Map_delete k al) < length al"
  by (induction al) (auto simp: AList.delete_eq less_Suc_eq_le)

text \<open>The drain loop of the \<open>finally\<close> block.\<close>

function drain :: "Pipeline \<Rightarrow> Pipeline" where
  "drain p =
     (if Map_has (results p) (nextToEmit p) then
        let msg = the (Map_get (results p) (nextToEmit p));
            p1 = p\<lparr>results := Map_delete (nextToEmit p) (results p)\<rparr>;
            p2 = (case msg of Some m \<Rightarrow> p1\<lparr>queue := queue_push m (queue p1)\<rparr> | None \<Rightarrow> p1)
        in drain (p2\<lparr>nextToEmit := nextToEmit p2 + 1\<rparr>)
      else p)"
  by pat_completeness auto
termination
  by (relation "measure (\<lambda>p. length (results p))")
     (auto simp: length_delete_less split: option.splits)

declare drain.simps [simp del]

text \<open>
  The call for \<open>h\<close> resolves: \<open>results.set(h, msg)\<close>, then the \<open>finally\<close> block
  (\<open>active--\<close>, the drain loop, and either the next height is scheduled or, with
  nothing active and nothing buffered, the queue is closed).
\<close>

definition on_resolve :: "MessageSource \<Rightarrow> BlockHeight \<Rightarrow> BlockHeight \<Rightarrow> Pipeline \<Rightarrow> Pipeline" where
  "on_resolve src end_h h p =
     (let p1 = p\<lparr>awaiting := removeAll h (awaiting p), results := Map_set h (src h) (results p)\<rparr>;
          p2 = p1\<lparr>active := active p1 - 1\<rparr>;
          p3 = drain p2
      in if scheduled p3 < end_h then
           scheduleOne (scheduled p3) (p3\<lparr>scheduled := scheduled p3 + 1\<rparr>)
         else if active p3 = 0 \<and> results p3 = [] then p3\<lparr>queue := queue_close (queue p3)\<rparr>
         else p3)"

text \<open>The call for \<open>h\<close> rejects: after the backoff \<open>getMessage(h)\<close> is called again.\<close>

definition on_reject :: "BlockHeight \<Rightarrow> Pipeline \<Rightarrow> Pipeline" where
  "on_reject h p = p\<lparr>attempts := attempts p @ [h]\<rparr>"

definition pipeline_step :: "MessageSource \<Rightarrow> BlockHeight \<Rightarrow> sched_event \<Rightarrow> Pipeline \<Rightarrow> Pipeline" where
  "pipeline_step src end_h ev p =
     (case ev of
        Resolve h \<Rightarrow> if h \<in> set (awaiting p) then on_resolve src end_h h p else p
      | Reject h \<Rightarrow> if h \<in> set (awaiting p) then on_reject h p else p
      | Pull \<Rightarrow> p\<lparr>queue := queue_next (queue p)\<rparr>)"

text \<open>\<open>for (let i = 0; i < this.workers && scheduled < end; i++) scheduleOne(scheduled++)\<close>.\<close>

fun prime :: "nat \<Rightarrow> BlockHeight \<Rightarrow> Pipeline \<Rightarrow> Pipeline" where
  "prime 0 end_h p = p"
| "prime (Suc i) end_h p =
     (if scheduled p < end_h then
        prime i end_h (scheduleOne (scheduled p) (p\<lparr>scheduled := scheduled p + 1\<rparr>))
      else p)"

definition parallel_stream :: "nat \<Rightarrow> BlockHeight \<Rightarrow> BlockHeight option \<Rightarrow> Pipeline" where
  "parallel_stream workers first lastExclusive =
     (let end_h = (case lastExclusive of None \<Rightarrow> MAX_SAFE_INTEGER | Some l \<Rightarrow> l)
      in prime workers end_h
           \<lparr>nextToEmit = first, results = [], active = 0, scheduled = first,
            awaiting = [], attempts = [], queue = new_AsyncQueue\<rparr>)"

definition parallel_run :: "MessageSource \<Rightarrow> nat \<Rightarrow> BlockHeight \<Rightarrow> BlockHeight option \<Rightarrow> sched_event list \<Rightarrow> Pipeline" where
  "parallel_run src workers first lastExclusive schedule =
     fold (pipeline_step src (case lastExclusive of None \<Rightarrow> MAX_SAFE_INTEGER | Some l \<Rightarrow> l))
       schedule (parallel_stream workers first lastExclusive)"

subsection \<open>ProviderStreamer\<close>

text \<open>
  The serial streamer: \<open>sp_h\<close> is the loop variable, whose call of \<open>getMessage\<close> is
  outstanding until the loop has finished.
\<close>

record Serial =
  sp_h :: BlockHeight
  sp_retries :: nat
  sp_finished :: bool
  sp_attempts :: "BlockHeight list"
  sp_queue :: AsyncQueue

text \<open>Entering the \<open>for\<close> loop at \<open>h\<close>: the first call for \<open>h\<close>, or \<open>queue.close()\<close> after the loop.\<close>

definition serial_enter :: "BlockHeight \<Rightarrow> BlockHeight \<Rightarrow> Serial \<Rightarrow> Serial" where
  "serial_enter end_h h s =
     (if h < end_h then s\<lparr>sp_h := h, sp_retries := 0, sp_attempts := sp_attempts s @ [h]\<rparr>
      else s\<lparr>sp_h := h, sp_finished := True, sp_queue := queue_close (sp_queue s)\<rparr>)"

definition serial_step :: "MessageSource \<Rightarrow> BlockHeight \<Rightarrow> sched_event \<Rightarrow> Serial \<Rightarrow> Serial" where
  "serial_step src end_h ev s =
     (case ev of
        Resolve h \<Rightarrow>
          if \<not> sp_finished s \<and> h = sp_h s then
            serial_enter end_h (h + 1)
              (case src h of Some m \<Rightarrow> s\<lparr>sp_queue := queue_push m (sp_queue s)\<rparr> | None \<Rightarrow> s)
          else s
      | Reject h \<Rightarrow>
          if \<not> sp_finished s \<and> h = sp_h s then
            s\<lparr>sp_retries := sp_retries s + 1, sp_attempts := sp_attempts s @ [h]\<rparr>
          else s
      | Pull \<Rightarrow> s\<lparr>sp_queue := queue_next (sp_queue s)\<rparr>)"

definition serial_stream :: "BlockHeight \<Rightarrow> BlockHeight option \<Rightarrow> Serial" where
  "serial_stream first lastExclusive =
     serial_enter (case lastExclusive of None \<Rightarrow> MAX_SAFE_INTEGER | Some l \<Rightarrow> l) first
       \<lparr>sp_h = first, sp_retries = 0, sp_finished = False, sp_attempts = [], sp_queue = new_AsyncQueue\<rparr>"

definition serial_run :: "MessageSource \<Rightarrow> BlockHeight \<Rightarrow> BlockHeight option \<Rightarrow> sched_event list \<Rightarrow> Serial" where
  "serial_run src first lastExclusive schedule =
     fold (serial_step src (case lastExclusive of None \<Rightarrow> MAX_SAFE_INTEGER | Some l \<Rightarrow> l))
       schedule (serial_stream first lastExclusive)"


section \<open>Auxiliary notions for the properties\<close>

subsection \<open>Traces\<close>

text \<open>The events that are calls of an indexer hook from \<open>processBlock\<close>.\<close>

definition is_callback :: "event \<Rightarrow> bool" where
  "is_callback ev =
     (case ev of
        EvProcessBlock _ \<Rightarrow> True
      | EvProcessTransaction _ _ \<Rightarrow> True
      | EvProcessReceipt _ _ \<Rightarrow> True
      | EvOnReceipt _ _ _ \<Rightarrow> True
      | EvOnTransaction _ _ \<Rightarrow> True
      | EvProcessBlockEnd _ \<Rightarrow> True
      | _ \<Rightarrow> False)"

text \<open>\<open>tr'\<close> is \<open>tr\<close> followed by events that all satisfy \<open>P\<close>.\<close>

definition extends_by :: "(event \<Rightarrow> bool) \<Rightarrow> event list \<Rightarrow> event list \<Rightarrow> bool" where
  "extends_by P tr tr' = (\<exists>ext. tr' = tr @ ext \<and> list_all P ext)"

subsection \<open>Example data\<close>

text \<open>A receipt outcome with the given id, status and follow-on receipt ids.\<close>

definition ex_receipt :: "string \<Rightarrow> ExecutionStatusView \<Rightarrow> string list \<Rightarrow> IndexerExecutionOutcomeWithReceipt" where
  "ex_receipt rid st follow =
     \<lparr>r_status = st, r_receipt_ids = follow, r_logs = [], r_receipt_id = rid, r_receiver_id = ''bob.near''\<rparr>"

text \<open>A resolved receipt record with the given status.\<close>

definition ex_resolved :: "ExecutionStatusView \<Rightarrow> TransactionReceipt" where
  "ex_resolved st = \<lparr>receipt = ex_receipt ''r1'' st [], block_height = 100, block_timestamp_nanosec = ''1''\<rparr>"

text \<open>A transaction with the given hash and initial receipt ids.\<close>

definition ex_tx :: "string \<Rightarrow> string list \<Rightarrow> IndexerTransactionWithOutcome" where
  "ex_tx h ids = \<lparr>tx_hash = h, tx_signer_id = ''alice.near'', tx_receiver_id = ''bob.near'', tx_receipt_ids = ids\<rparr>"

subsection \<open>Events of a run\<close>

text \<open>The events of the receiver loop: everything but \<open>load\<close>, \<open>stream\<close>, the await of the
  handle and \<open>finalize\<close>.\<close>

definition is_loop_event :: "event \<Rightarrow> bool" where
  "is_loop_event ev =
     (case ev of
        EvFinalize \<Rightarrow> False
      | EvAwaitHandle \<Rightarrow> False
      | EvLoad \<Rightarrow> False
      | EvStream _ _ \<Rightarrow> False
      | _ \<Rightarrow> True)"

text \<open>The two calls of the \<open>finally\<close> block.\<close>

definition is_join_event :: "event \<Rightarrow> bool" where
  "is_join_event ev = (ev = EvAwaitHandle \<or> ev = EvFinalize)"

text \<open>An indexer that defines no hook.\<close>

definition no_hooks :: "string Indexer" where
  "no_hooks =
     \<lparr>ix_processBlock = None, ix_processTransaction = None, ix_processReceipt = None,
      ix_onTransaction = None, ix_onReceipt = None, ix_processBlockEnd = None, ix_finalize = None\<rparr>"

text \<open>A block of one shard with the given transactions and receipt outcomes.\<close>

definition ex_message :: "BlockHeight \<Rightarrow> IndexerTransactionWithOutcome list \<Rightarrow> IndexerExecutionOutcomeWithReceipt list \<Rightarrow> StreamerMessage" where
  "ex_message h txs rcs =
     \<lparr>height = h, timestamp_nanosec = TsNumber 17,
      shards = [\<lparr>shard_id = 0, chunk = Some txs, receipt_execution_outcomes = rcs\<rparr>]\<rparr>"

text \<open>An indexer whose \<open>processBlock\<close> hook throws and that defines \<open>finalize\<close>.\<close>

definition failing_indexer :: "string Indexer" where
  "failing_indexer =
     no_hooks\<lparr>ix_processBlock := Some (\<lambda>m tr. Some ''boom''), ix_finalize := Some (\<lambda>u tr. None)\<rparr>"

text \<open>A streamer over two blocks whose handle resolves.\<close>

definition ex_streamed :: "string Streamed" where
  "ex_streamed = \<lparr>st_handle = Fulfilled, st_receiver = [ex_message 100 [] [], ex_message 101 [] []],
                   st_receiver_end = Fulfilled\<rparr>"

definition ex_streamer :: "string MessageStreamer" where
  "ex_streamer first lastExclusive = Inr ex_streamed"

text \<open>The range \<open>[100, 102)\<close> under \<open>stop_on_error\<close>, with genesis height \<open>0\<close>.\<close>

definition stop_options :: "string IndexerOptions" where
  "stop_options = (defaultOptions (Range 100 (Some 102)))\<lparr>stop_on_error := True, genesis_block_height := 0\<rparr>"

text \<open>The same streamer with another fate of its handle.\<close>

definition handle_streamer :: "string settled \<Rightarrow> string MessageStreamer" where
  "handle_streamer p first lastExclusive = Inr (ex_streamed\<lparr>st_handle := p\<rparr>)"

text \<open>An indexer that defines \<open>finalize\<close> only, and one that defines \<open>processBlock\<close> only.\<close>

definition finalizing_indexer :: "string Indexer" where
  "finalizing_indexer = no_hooks\<lparr>ix_finalize := Some (\<lambda>u tr. None)\<rparr>"

definition raw_indexer :: "string Indexer" where
  "raw_indexer = no_hooks\<lparr>ix_processBlock := Some (\<lambda>m tr. None)\<rparr>"

text \<open>
  The range \<open>[0, 0)\<close> with margins \<open>1\<close> and \<open>1\<close> and genesis height \<open>0\<close>, and a
  streamer that yields the block of height \<open>5\<close>.
\<close>

definition end_zero_options :: "string IndexerOptions" where
  "end_zero_options =
     (defaultOptions (Range 0 (Some 0)))
       \<lparr>preprocess_transactions := Some \<lparr>prefetch_blocks = 1, postfetch_blocks = 1\<rparr>,
        genesis_block_height := 0\<rparr>"

definition five_streamer :: "string MessageStreamer" where
  "five_streamer first lastExclusive =
     Inr \<lparr>st_handle = Fulfilled, st_receiver = [ex_message 5 [] []], st_receiver_end = Fulfilled\<rparr>"

text \<open>A save location whose \<open>load\<close> rejects, and one whose \<open>load\<close> resolves with \<open>undefined\<close>.\<close>

definition failing_location :: "string SaveLocation" where
  "failing_location = \<lparr>sl_load = (\<lambda>tr. Inl ''load failed''), sl_save = (\<lambda>h tr. None)\<rparr>"

definition empty_location :: "string SaveLocation" where
  "empty_location = \<lparr>sl_load = (\<lambda>tr. Inr None), sl_save = (\<lambda>h tr. None)\<rparr>"

text \<open>An auto-continue range with default start \<open>100\<close>.\<close>

definition ex_auto :: "string SaveLocation \<Rightarrow> AutoContinueEnd \<Rightarrow> string AutoContinue" where
  "ex_auto sl e = \<lparr>save_location = sl, start_height_if_does_not_exist = 100, ac_end = e\<rparr>"



subsection \<open>The open set\<close>

text \<open>An open transaction is in order when its receipt mapping is empty or has an
  unresolved entry: the completion test would not remove it.\<close>

definition open_ok :: "IncompleteTransaction \<Rightarrow> bool" where
  "open_ok inc = (it_receipts inc = [] \<or> \<not> list_all (\<lambda>r. r \<noteq> None) (Map_values (it_receipts inc)))"

definition open_inv :: "InternalIndexerState \<Rightarrow> bool" where
  "open_inv s = list_all (\<lambda>(k, inc). open_ok inc) (pendingTransactions s)"

text \<open>The hook, when defined, resolves on this argument after this history.\<close>

definition hook_resolves :: "('a, 'e) hook \<Rightarrow> 'a \<Rightarrow> event list \<Rightarrow> bool" where
  "hook_resolves hk a tr = (case hk of None \<Rightarrow> True | Some f \<Rightarrow> f a tr = None)"

text \<open>The calls of \<open>onTransaction\<close>.\<close>

definition is_onTransaction :: "event \<Rightarrow> bool" where
  "is_onTransaction ev = (case ev of EvOnTransaction _ _ \<Rightarrow> True | _ \<Rightarrow> False)"

text \<open>The options of an in-range height with preprocessing enabled.\<close>

definition in_range_options :: "BlockHeight \<Rightarrow> BlockProcessingOptions" where
  "in_range_options h =
     \<lparr>opt_height = h, preprocess = True, preprocess_new_transactions = True,
      handle_raw_events = True, handle_preprocessed_transactions_by_indexer = True\<rparr>"

text \<open>An indexer that defines \<open>onTransaction\<close> only.\<close>

definition watcher :: "string Indexer" where
  "watcher = no_hooks\<lparr>ix_onTransaction := Some (\<lambda>a tr. None)\<rparr>"

text \<open>The state after transaction \<open>T\<close> with initial receipt id \<open>r1\<close> was registered.\<close>

definition registered_state :: InternalIndexerState where
  "registered_state =
     \<lparr>pendingTransactions =
        [(''T'', \<lparr>it_transaction = ex_tx ''T'' [''r1''], it_receipts = [(''r1'', None)]\<rparr>)],
      receiptToTx = [(''r1'', ''T'')]\<rparr>"

subsection \<open>Invariants of the fetch pipelines\<close>

text \<open>Everything pushed to the queue that was not dropped, in push order: what the
  consumer has received, then what is buffered for it.\<close>

definition handed :: "AsyncQueue \<Rightarrow> StreamerMessage list" where
  "handed q = q_yielded q @ q_values q"

text \<open>A resolver waits only while nothing is buffered.\<close>

definition qwait :: "AsyncQueue \<Rightarrow> bool" where
  "qwait q = (q_resolvers q > 0 \<longrightarrow> q_values q = [])"

text \<open>The messages of the heights \<open>lo \<le> h < hi\<close> that the source does not report
  absent, in height order.\<close>

definition present :: "MessageSource \<Rightarrow> BlockHeight \<Rightarrow> BlockHeight \<Rightarrow> StreamerMessage list" where
  "present src lo hi = List.map_filter src [lo..hi - 1]"

text \<open>The invariant of \<open>ParallelProviderStreamer\<close> inside a completion handler (\<open>pinv0\<close>)
  and between handlers (\<open>pinv\<close>): the heights of \<open>[nextToEmit, scheduled)\<close> are each
  either outstanding or buffered in \<open>results\<close>, and the queue was handed exactly the
  present messages below \<open>nextToEmit\<close>.\<close>

definition pinv0 :: "BlockHeight \<Rightarrow> BlockHeight \<Rightarrow> nat \<Rightarrow> MessageSource \<Rightarrow> Pipeline \<Rightarrow> bool" where
  "pinv0 first end_h W src p =
     (first \<le> nextToEmit p \<and> nextToEmit p \<le> scheduled p \<and> scheduled p \<le> max first end_h \<and>
      distinct (awaiting p) \<and> distinct (map fst (results p)) \<and>
      set (awaiting p) \<inter> fst ` set (results p) = {} \<and>
      set (awaiting p) \<union> fst ` set (results p) = {nextToEmit p..<scheduled p} \<and>
      list_all (\<lambda>(h, m). m = src h) (results p) \<and>
      handed (queue p) = present src first (nextToEmit p) \<and>
      qwait (queue p) \<and>
      (q_done (queue p) \<longrightarrow> results p = [] \<and> awaiting p = []) \<and>
      set (attempts p) = {first..<scheduled p} \<and>
      active p = int (length (awaiting p)) \<and>
      length (awaiting p) \<le> W)"

definition pinv :: "BlockHeight \<Rightarrow> BlockHeight \<Rightarrow> nat \<Rightarrow> MessageSource \<Rightarrow> Pipeline \<Rightarrow> bool" where
  "pinv first end_h W src p =
     (pinv0 first end_h W src p \<and>
      \<not> Map_has (results p) (nextToEmit p) \<and>
      (W \<ge> 1 \<and> first < end_h \<and> awaiting p = [] \<longrightarrow> q_done (queue p) \<and> scheduled p = end_h))"

text \<open>One round of the drain loop, and the part of a completion handler before it.\<close>

definition drain1 :: "Pipeline \<Rightarrow> Pipeline" where
  "drain1 p =
     (let msg = the (Map_get (results p) (nextToEmit p));
          p1 = p\<lparr>results := Map_delete (nextToEmit p) (results p)\<rparr>;
          p2 = (case msg of Some m \<Rightarrow> p1\<lparr>queue := queue_push m (queue p1)\<rparr> | None \<Rightarrow> p1)
      in p2\<lparr>nextToEmit := nextToEmit p2 + 1\<rparr>)"

definition resolve_mid :: "MessageSource \<Rightarrow> BlockHeight \<Rightarrow> Pipeline \<Rightarrow> Pipeline" where
  "resolve_mid src h p =
     p\<lparr>awaiting := removeAll h (awaiting p), results := Map_set h (src h) (results p),
       active := active p - 1\<rparr>"

text \<open>The source answers a height with a message of that height.\<close>

definition source_faithful :: "MessageSource \<Rightarrow> bool" where
  "source_faithful src = (\<forall>h m. src h = Some m \<longrightarrow> height m = h)"

text \<open>The invariant of \<open>ProviderStreamer\<close>.\<close>

definition sinv :: "BlockHeight \<Rightarrow> BlockHeight \<Rightarrow> MessageSource \<Rightarrow> Serial \<Rightarrow> bool" where
  "sinv first end_h src s =
     (first \<le> sp_h s \<and> sp_h s \<le> max first end_h \<and>
      handed (sp_queue s) = present src first (sp_h s) \<and>
      qwait (sp_queue s) \<and>
      q_done (sp_queue s) = sp_finished s \<and>
      sp_finished s = (end_h \<le> sp_h s) \<and>
      set (sp_attempts s) = {first..<(if sp_finished s then sp_h s else sp_h s + 1)})"

text \<open>A source in which height \<open>101\<close> is absent, and an order of completions in which
  the call for \<open>101\<close> resolves first and the call for \<open>100\<close> is retried once.\<close>

definition ex_source :: MessageSource where
  "ex_source h = (if h = 100 \<or> h = 102 then Some (ex_message h [] []) else None)"

definition ex_schedule :: "sched_event list" where
  "ex_schedule = [Resolve 101, Reject 100, Resolve 100, Pull, Resolve 102, Pull, Pull]"

subsection \<open>One transaction among others\<close>

text \<open>The transactions and the receipt outcomes of a block, in processing order.\<close>

definition txs_of :: "StreamerMessage \<Rightarrow> IndexerTransactionWithOutcome list" where
  "txs_of m = concat (map (\<lambda>sh. case chunk sh of None \<Rightarrow> [] | Some txs \<Rightarrow> txs) (shards m))"

definition rcs_of :: "StreamerMessage \<Rightarrow> IndexerExecutionOutcomeWithReceipt list" where
  "rcs_of m = concat (map receipt_execution_outcomes (shards m))"

text \<open>No hook of the indexer throws.\<close>

definition never_throws :: "'e Indexer \<Rightarrow> bool" where
  "never_throws ix =
     ((\<forall>a tr. hook_resolves (ix_processBlock ix) a tr) \<and>
      (\<forall>a tr. hook_resolves (ix_processTransaction ix) a tr) \<and>
      (\<forall>a tr. hook_resolves (ix_processReceipt ix) a tr) \<and>
      (\<forall>a tr. hook_resolves (ix_onTransaction ix) a tr) \<and>
      (\<forall>a tr. hook_resolves (ix_onReceipt ix) a tr) \<and>
      (\<forall>a tr. hook_resolves (ix_processBlockEnd ix) a tr))"

text \<open>The calls of \<open>onTransaction\<close> for transaction \<open>T\<close>.\<close>

definition for_tx :: "IndexerTransactionWithOutcome \<Rightarrow> event \<Rightarrow> bool" where
  "for_tx T ev = (case ev of EvOnTransaction c m \<Rightarrow> ct_transaction c = T | _ \<Rightarrow> False)"

text \<open>A transaction, or a receipt outcome, that shares neither the hash of \<open>T\<close> nor any
  of the receipt ids \<open>U\<close> of \<open>T\<close>.\<close>

definition foreign_tx :: "IndexerTransactionWithOutcome \<Rightarrow> string set \<Rightarrow> IndexerTransactionWithOutcome \<Rightarrow> bool" where
  "foreign_tx T U t = (tx_hash t \<noteq> tx_hash T \<and> set (tx_receipt_ids t) \<inter> U = {})"

definition foreign_rc :: "string set \<Rightarrow> IndexerExecutionOutcomeWithReceipt \<Rightarrow> bool" where
  "foreign_rc U r = (r_receipt_id r \<notin> U \<and> set (r_receipt_ids r) \<inter> U = {})"

text \<open>Every receipt id that \<open>receiptToTx\<close> maps to the hash of \<open>T\<close> is one of \<open>U\<close>.\<close>

definition own_ok :: "IndexerTransactionWithOutcome \<Rightarrow> string set \<Rightarrow> InternalIndexerState \<Rightarrow> bool" where
  "own_ok T U s = list_all (\<lambda>(r, h). h = tx_hash T \<longrightarrow> r \<in> U) (receiptToTx s)"

text \<open>Every open transaction is stored under its own hash.\<close>

definition pending_wf :: "InternalIndexerState \<Rightarrow> bool" where
  "pending_wf s = list_all (\<lambda>(k, inc). tx_hash (it_transaction inc) = k) (pendingTransactions s)"

text \<open>A step that leaves alone what belongs to \<open>T\<close>.\<close>

definition calm :: "IndexerTransactionWithOutcome \<Rightarrow> string set \<Rightarrow> InternalIndexerState \<Rightarrow> event list
    \<Rightarrow> InternalIndexerState \<Rightarrow> event list \<Rightarrow> bool" where
  "calm T U s tr s' tr' =
     (own_ok T U s' \<and> pending_wf s' \<and>
      Map_get (pendingTransactions s') (tx_hash T) = Map_get (pendingTransactions s) (tx_hash T) \<and>
      (\<forall>k\<in>U. Map_get (receiptToTx s') k = Map_get (receiptToTx s) k) \<and>
      filter (for_tx T) tr' = filter (for_tx T) tr)"

text \<open>The event a guarded hook call adds to the trace.\<close>

definition emit :: "bool \<Rightarrow> ('a, 'e) hook \<Rightarrow> event \<Rightarrow> event list" where
  "emit c hk ev = (if c \<and> hk \<noteq> None then [ev] else [])"

text \<open>\<open>T\<close> is open with receipt mapping \<open>M\<close>, and every id of \<open>M\<close> is mapped to \<open>T\<close>.\<close>

definition Topen :: "IndexerTransactionWithOutcome \<Rightarrow> (string, TransactionReceipt option) jsmap
    \<Rightarrow> InternalIndexerState \<Rightarrow> bool" where
  "Topen T M s =
     (Map_get (pendingTransactions s) (tx_hash T) = Some \<lparr>it_transaction = T, it_receipts = M\<rparr> \<and>
      (\<forall>k\<in>fst ` set M. Map_get (receiptToTx s) k = Some (tx_hash T)))"

text \<open>The resolved receipt records of \<open>rs\<close>, the \<open>i\<close>-th resolved in the \<open>i\<close>-th block.\<close>

definition procs :: "IndexerExecutionOutcomeWithReceipt list \<Rightarrow> StreamerMessage list \<Rightarrow> TransactionReceipt list" where
  "procs rs ms = map (\<lambda>(r, m). make_processed r m) (zip rs ms)"

text \<open>The receipt mapping of \<open>T\<close> after \<open>i\<close> blocks: its keys (\<open>known\<close>), its values
  (\<open>resolved_at\<close>) and the mapping itself (\<open>Mstate\<close>).\<close>

definition resolved_at :: "IndexerExecutionOutcomeWithReceipt list \<Rightarrow> StreamerMessage list \<Rightarrow> nat
    \<Rightarrow> string \<Rightarrow> TransactionReceipt option" where
  "resolved_at rs ms i = map_of (zip (map r_receipt_id (take i rs)) (take i (procs rs ms)))"

definition known :: "IndexerTransactionWithOutcome \<Rightarrow> IndexerExecutionOutcomeWithReceipt list \<Rightarrow> nat \<Rightarrow> string set" where
  "known T rs i =
     set (tx_receipt_ids T) \<union> (\<Union>r\<in>set (take i rs). insert (r_receipt_id r) (set (r_receipt_ids r)))"

definition Mstate :: "IndexerTransactionWithOutcome \<Rightarrow> IndexerExecutionOutcomeWithReceipt list
    \<Rightarrow> StreamerMessage list \<Rightarrow> nat \<Rightarrow> (string, TransactionReceipt option) jsmap \<Rightarrow> bool" where
  "Mstate T rs ms i M =
     (distinct (map fst M) \<and> fst ` set M = known T rs i \<and>
      (\<forall>k\<in>known T rs i. Map_get M k = Some (resolved_at rs ms i k)))"

text \<open>
  The block of each receipt, when \<open>rss ! i\<close> are the receipts that resolve in the
  block \<open>ms ! i\<close>.
\<close>

definition homes :: "'a list list \<Rightarrow> 'b list \<Rightarrow> 'b list" where
  "homes rss ms = concat (map (\<lambda>(own, m). replicate (length own) m) (zip rss ms))"

text \<open>
  The state of \<open>T\<close> after \<open>k\<close> of its receipts \<open>rs\<close> have been resolved, \<open>tr0\<close> being the
  trace before \<open>T\<close> was registered: while receipts are outstanding \<open>T\<close> is open and
  \<open>onTransaction\<close> has not been called for it; after the last one \<open>T\<close> is closed and
  \<open>onTransaction\<close> has been called for it once, with all the receipts.
\<close>

definition tracked :: "IndexerTransactionWithOutcome \<Rightarrow> IndexerExecutionOutcomeWithReceipt list
    \<Rightarrow> StreamerMessage list \<Rightarrow> event list \<Rightarrow> nat \<Rightarrow> InternalIndexerState \<Rightarrow> event list \<Rightarrow> bool" where
  "tracked T rs ms tr0 k s tr =
     (own_ok T (r_receipt_id ` set rs) s \<and> pending_wf s \<and>
      (if k < length rs then
         filter (for_tx T) tr = filter (for_tx T) tr0 \<and> (\<exists>M. Topen T M s \<and> Mstate T rs ms k M)
       else
         Map_get (pendingTransactions s) (tx_hash T) = None \<and>
         (\<exists>RS. filter (for_tx T) tr =
                 filter (for_tx T) tr0 @ [EvOnTransaction \<lparr>ct_transaction = T, ct_receipts = RS\<rparr> (last ms)] \<and>
               set RS = set (procs rs ms) \<and> length RS = length rs)))"

text \<open>
  Transaction \<open>T\<close> is registered in block \<open>100\<close>, which resolves none of its
  receipts; its receipt \<open>r1\<close> resolves in block \<open>101\<close> and spawns \<open>r2\<close> and \<open>r3\<close>, which
  both resolve in block \<open>102\<close>. The blocks also hold unrelated transactions and
  receipts.
\<close>

definition stag_tx :: IndexerTransactionWithOutcome where
  "stag_tx = ex_tx ''T'' [''r1'']"

definition stag_receipts :: "IndexerExecutionOutcomeWithReceipt list list" where
  "stag_receipts =
     [[],
      [ex_receipt ''r1'' (SuccessReceiptId ''r2'') [''r2'', ''r3'']],
      [ex_receipt ''r2'' (SuccessValue None) [], ex_receipt ''r3'' Failure []]]"

definition stag_inputs :: "(StreamerMessage \<times> BlockProcessingOptions) list" where
  "stag_inputs =
     [(ex_message 100 [ex_tx ''A'' [''a1''], stag_tx] [ex_receipt ''a1'' (SuccessValue None) []],
       in_range_options 100),
      (ex_message 101 [] [ex_receipt ''r1'' (SuccessReceiptId ''r2'') [''r2'', ''r3'']],
       in_range_options 101),
      (ex_message 102 [ex_tx ''B'' [''b1'']]
         [ex_receipt ''r2'' (SuccessValue None) [], ex_receipt ''b1'' (SuccessValue None) [],
          ex_receipt ''r3'' Failure []],
       in_range_options 102)]"

text \<open>A transaction whose hash is the empty string.\<close>

definition hashless_tx :: IndexerTransactionWithOutcome where
  "hashless_tx = ex_tx [] [''r1'']"


section \<open>Sequencing and the trace\<close>

lemma andThen_None [simp]: "andThen (None, s, tr) f = f s tr"
  by (simp add: andThen_def)

lemma andThen_Some [simp]: "andThen (Some e, s, tr) f = (Some e, s, tr)"
  by (simp add: andThen_def)

lemma andThen_cases:
  "andThen r f = (case r of (e, s, tr) \<Rightarrow> if e = None then f s tr else (e, s, tr))"
  by (cases r) (auto simp: andThen_def split: option.splits)

lemma extends_by_refl [simp]: "extends_by P tr tr"
  by (simp add: extends_by_def)

lemma extends_by_trans: "extends_by P a b \<Longrightarrow> extends_by P b c \<Longrightarrow> extends_by P a c"
  by (auto simp: extends_by_def)

lemma extends_by_snoc: "P ev \<Longrightarrow> extends_by P tr (tr @ [ev])"
  by (simp add: extends_by_def)

lemma invoke_extends:
  "P ev \<Longrightarrow> invoke c hk a ev tr = (e, tr') \<Longrightarrow> extends_by P tr tr'"
  by (auto simp: invoke_def extends_by_snoc split: option.splits if_splits)

lemma tx_step_extends:
  "tx_step ix m opts tx s tr = (e, s', tr') \<Longrightarrow> extends_by is_callback tr tr'"
  by (auto simp: tx_step_def Let_def is_callback_def split: prod.splits elim!: invoke_extends[rotated])

lemma tx_loop_extends:
  "tx_loop ix m opts txs s tr = (e, s', tr') \<Longrightarrow> extends_by is_callback tr tr'"
proof (induction txs arbitrary: s tr)
  case Nil
  then show ?case by simp
next
  case (Cons tx txs)
  obtain e1 s1 tr1 where st: "tx_step ix m opts tx s tr = (e1, s1, tr1)"
    by (cases "tx_step ix m opts tx s tr") auto
  show ?case
  proof (cases e1)
    case None
    with Cons.prems st have "tx_loop ix m opts txs s1 tr1 = (e, s', tr')" by simp
    from Cons.IH[OF this] tx_step_extends[OF st] show ?thesis
      by (blast intro: extends_by_trans)
  next
    case (Some a)
    with Cons.prems st tx_step_extends[OF st] show ?thesis by simp
  qed
qed

lemma andThen_extends:
  assumes "andThen r f = (e, s', tr')"
    and "\<And>e1 s1 tr1. r = (e1, s1, tr1) \<Longrightarrow> extends_by P tr tr1"
    and "\<And>s1 tr1. f s1 tr1 = (e, s', tr') \<Longrightarrow> extends_by P tr1 tr'"
  shows "extends_by P tr tr'"
proof -
  obtain e1 s1 tr1 where r: "r = (e1, s1, tr1)" by (cases r) auto
  show ?thesis
  proof (cases e1)
    case None
    with assms(1) r have "f s1 tr1 = (e, s', tr')" by simp
    from assms(3)[OF this] assms(2)[OF r] show ?thesis by (rule extends_by_trans[rotated])
  next
    case (Some a)
    with assms(1) r assms(2)[OF r] show ?thesis by simp
  qed
qed

lemma shards_tx_loop_extends:
  "shards_tx_loop ix m opts shs s tr = (e, s', tr') \<Longrightarrow> extends_by is_callback tr tr'"
proof (induction shs arbitrary: s tr)
  case Nil
  then show ?case by simp
next
  case (Cons sh shs)
  show ?case
  proof (cases "chunk sh")
    case None
    with Cons show ?thesis by simp
  next
    case (Some txs)
    with Cons.prems have "andThen (tx_loop ix m opts txs s tr) (shards_tx_loop ix m opts shs) = (e, s', tr')"
      by simp
    then show ?thesis
      by (rule andThen_extends) (auto intro: tx_loop_extends Cons.IH)
  qed
qed

lemma resolve_receipt_extends:
  "resolve_receipt ix m opts rc txId inc s tr = (e, s', tr') \<Longrightarrow> extends_by is_callback tr tr'"
  unfolding resolve_receipt_def Let_def
  by (auto simp: andThen_cases is_callback_def split: prod.splits if_splits
      dest!: invoke_extends[where P = is_callback, rotated] intro: extends_by_trans)

lemma receipt_step_extends:
  "receipt_step ix m opts rc s tr = (e, s', tr') \<Longrightarrow> extends_by is_callback tr tr'"
  unfolding receipt_step_def
  apply (erule andThen_extends)
   apply (auto split: option.splits if_splits prod.splits simp: is_callback_def
      intro: resolve_receipt_extends elim!: invoke_extends[rotated])
  done

lemma receipt_loop_extends:
  "receipt_loop ix m opts rcs s tr = (e, s', tr') \<Longrightarrow> extends_by is_callback tr tr'"
proof (induction rcs arbitrary: s tr)
  case Nil
  then show ?case by simp
next
  case (Cons rc rcs)
  from Cons.prems have "andThen (receipt_step ix m opts rc s tr) (receipt_loop ix m opts rcs) = (e, s', tr')"
    by simp
  then show ?case
    by (rule andThen_extends) (auto intro: receipt_step_extends Cons.IH)
qed

lemma shards_receipt_loop_extends:
  "shards_receipt_loop ix m opts shs s tr = (e, s', tr') \<Longrightarrow> extends_by is_callback tr tr'"
proof (induction shs arbitrary: s tr)
  case Nil
  then show ?case by simp
next
  case (Cons sh shs)
  from Cons.prems have "andThen (receipt_loop ix m opts (receipt_execution_outcomes sh) s tr)
      (shards_receipt_loop ix m opts shs) = (e, s', tr')"
    by simp
  then show ?case
    by (rule andThen_extends) (auto intro: receipt_loop_extends Cons.IH)
qed

lemma processBlock_extends:
  assumes "processBlock ix m opts s tr = (e, s', tr')"
  shows "extends_by is_callback tr tr'"
proof -
  obtain e0 tr0 where i0: "invoke (handle_raw_events opts) (ix_processBlock ix) m (EvProcessBlock m) tr = (e0, tr0)"
    by (cases "invoke (handle_raw_events opts) (ix_processBlock ix) m (EvProcessBlock m) tr") auto
  have x0: "extends_by is_callback tr tr0"
    by (rule invoke_extends[OF _ i0]) (simp add: is_callback_def)
  from assms i0 have "andThen (e0, s, tr0) (\<lambda>s tr.
         andThen (shards_tx_loop ix m opts (shards m) s tr) (\<lambda>s tr.
         andThen (shards_receipt_loop ix m opts (shards m) s tr) (\<lambda>s tr.
           let (e, tr') = invoke True (ix_processBlockEnd ix) m (EvProcessBlockEnd m) tr
           in (e, s, tr')))) = (e, s', tr')"
    by (simp add: processBlock_def)
  then have "extends_by is_callback tr0 tr'"
  proof (rule andThen_extends)
    fix s1 tr1
    assume "andThen (shards_tx_loop ix m opts (shards m) s1 tr1) (\<lambda>s tr.
         andThen (shards_receipt_loop ix m opts (shards m) s tr) (\<lambda>s tr.
           let (e, tr') = invoke True (ix_processBlockEnd ix) m (EvProcessBlockEnd m) tr
           in (e, s, tr'))) = (e, s', tr')"
    then show "extends_by is_callback tr1 tr'"
    proof (rule andThen_extends)
      fix s2 tr2
      assume "andThen (shards_receipt_loop ix m opts (shards m) s2 tr2) (\<lambda>s tr.
           let (e, tr') = invoke True (ix_processBlockEnd ix) m (EvProcessBlockEnd m) tr
           in (e, s, tr')) = (e, s', tr')"
      then show "extends_by is_callback tr2 tr'"
      proof (rule andThen_extends)
        fix s3 tr3
        assume "(let (e, tr') = invoke True (ix_processBlockEnd ix) m (EvProcessBlockEnd m) tr3
           in (e, s3, tr')) = (e, s', tr')"
        then show "extends_by is_callback tr3 tr'"
          by (auto split: prod.splits simp: is_callback_def elim!: invoke_extends[rotated])
      qed (auto intro: shards_receipt_loop_extends)
    qed (auto intro: shards_tx_loop_extends)
  qed auto
  with x0 show ?thesis by (rule extends_by_trans)
qed

text \<open>
  \<open>String\<close> on a timestamp: a string is kept as it is, a number below \<open>2^53\<close> is
  printed exactly, and a larger one with the fewest digits that read back as the
  same double.
\<close>

lemma js_String_examples:
  "js_String (TsString ''1700000000000000256'') = ''1700000000000000256'' \<and>
   js_String (TsNumber 17) = ''17'' \<and>
   js_String (TsNumber 1700000000000000256) = ''1700000000000000300''"
  by code_simp

text \<open>
  The class \<open>DefaultTransactionReceipt\<close> and the record built inline by \<open>processBlock\<close>
  have the same success predicate.
\<close>

lemma Default_isSuccessful_eq:
  "Default_isSuccessful r ifUnknown = isSuccessful r ifUnknown"
  by (simp add: Default_isSuccessful_def split: ExecutionStatusView.splits)

text \<open>
  Claim C8. The success predicate of a resolved receipt is false for status
  \<open>Failure\<close>, true for \<open>SuccessValue\<close> and \<open>SuccessReceiptId\<close>, and the caller's
  default for \<open>Unknown\<close>; \<open>allReceiptsSuccessful\<close> of a completed transaction holds
  exactly when \<open>isSuccessful(true)\<close> holds for every one of its receipts.
\<close>

theorem isSuccessful_status:
  "(r_status (receipt r) = Failure \<longrightarrow> isSuccessful r ifUnknown = False) \<and>
   (r_status (receipt r) = SuccessValue v \<longrightarrow> isSuccessful r ifUnknown = True) \<and>
   (r_status (receipt r) = SuccessReceiptId i \<longrightarrow> isSuccessful r ifUnknown = True) \<and>
   (r_status (receipt r) = Unknown \<longrightarrow> isSuccessful r ifUnknown = ifUnknown) \<and>
   allReceiptsSuccessful c = (\<forall>x \<in> set (ct_receipts c). isSuccessful x True)"
  by (simp add: allReceiptsSuccessful_def list_all_iff)

text \<open>The four statuses and both outcomes of the aggregate, on concrete receipts.\<close>

theorem isSuccessful_status_witness:
  "isSuccessful (ex_resolved Failure) True = False \<and>
   isSuccessful (ex_resolved (SuccessValue None)) False = True \<and>
   isSuccessful (ex_resolved (SuccessReceiptId ''r2'')) False = True \<and>
   isSuccessful (ex_resolved Unknown) False = False \<and>
   isSuccessful (ex_resolved Unknown) True = True \<and>
   allReceiptsSuccessful \<lparr>ct_transaction = ex_tx ''T'' [''r1''],
      ct_receipts = [ex_resolved Unknown, ex_resolved Failure]\<rparr> = False \<and>
   allReceiptsSuccessful \<lparr>ct_transaction = ex_tx ''T'' [''r1''],
      ct_receipts = [ex_resolved Unknown, ex_resolved (SuccessValue None)]\<rparr> = True"
  using isSuccessful_status [of "ex_resolved Failure" True None "''r2''"
      "\<lparr>ct_transaction = ex_tx ''T'' [''r1''], ct_receipts = [ex_resolved Unknown, ex_resolved Failure]\<rparr>"]
    isSuccessful_status [of "ex_resolved (SuccessValue None)" False None "''r2''"
      "\<lparr>ct_transaction = ex_tx ''T'' [''r1''], ct_receipts = [ex_resolved Unknown, ex_resolved (SuccessValue None)]\<rparr>"]
    isSuccessful_status [of "ex_resolved (SuccessReceiptId ''r2'')" False None "''r2''"]
    isSuccessful_status [of "ex_resolved Unknown" False]
    isSuccessful_status [of "ex_resolved Unknown" True]
  by (simp add: ex_resolved_def ex_receipt_def)

text \<open>
  The two regions in terms of the run's inputs. The postfetch region is
  \<open>[end, end + postfetch)\<close> when the end is set and not \<open>0\<close>; an end of \<open>0\<close> is falsy
  in \<open>end_block_height ? ... : ...\<close> and makes the region \<open>[0, MAX_SAFE_INTEGER)\<close>.
\<close>

lemma prefetch_region:
  "inPrefetch (make_plan options start_h end_h pp) message =
     (max (genesis_block_height options)
          (start_h - (case preprocess_transactions options of None \<Rightarrow> 0 | Some p \<Rightarrow> prefetch_blocks p))
        \<le> height message \<and> height message < start_h)"
  by (auto simp: inPrefetch_def make_plan_def Let_def)

lemma postfetch_region:
  "end_h \<noteq> Some 0 \<Longrightarrow>
   inPostfetch (make_plan options start_h end_h pp) message =
     (case end_h of
        None \<Rightarrow> False
      | Some e \<Rightarrow> e \<le> height message \<and>
          height message < e + (case preprocess_transactions options of None \<Rightarrow> 0 | Some p \<Rightarrow> postfetch_blocks p))"
  by (auto simp: inPostfetch_def make_plan_def Let_def split: option.splits)

lemma postfetch_region_end_zero:
  "inPostfetch (make_plan options start_h (Some 0) pp) message =
     (0 \<le> height message \<and> height message < MAX_SAFE_INTEGER)"
  by (auto simp: inPostfetch_def make_plan_def Let_def)

text \<open>
  The flags that a run with requested range \<open>[start, end)\<close> and margins \<open>P\<close> and \<open>Q\<close>
  derives for a message, for every requested end but \<open>0\<close>: registration of new
  transactions is off exactly in \<open>[end, end + Q)\<close>, correlated events are off exactly
  in \<open>[max(genesis, start - P), start)\<close>, raw events are off exactly in the two, and
  \<open>processBlock\<close> is called with these flags.
\<close>

lemma visibility_flags_regions:
  assumes "end_h \<noteq> Some 0"
    and "P = (case preprocess_transactions options of None \<Rightarrow> 0 | Some p \<Rightarrow> prefetch_blocks p)"
    and "Q = (case preprocess_transactions options of None \<Rightarrow> 0 | Some p \<Rightarrow> postfetch_blocks p)"
    and "plan = make_plan options start_h end_h pp"
    and "flags = processingOptions plan message"
  shows "(\<not> preprocess_new_transactions flags) =
           (\<exists>e. end_h = Some e \<and> e \<le> height message \<and> height message < e + Q)"
    and "(\<not> handle_preprocessed_transactions_by_indexer flags) =
           (max (genesis_block_height options) (start_h - P) \<le> height message \<and> height message < start_h)"
    and "(\<not> handle_raw_events flags) =
           ((max (genesis_block_height options) (start_h - P) \<le> height message \<and> height message < start_h) \<or>
            (\<exists>e. end_h = Some e \<and> e \<le> height message \<and> height message < e + Q))"
    and "\<exists>e s' tr'. loop_body indexer options plan message s tr = (e, s', tr') \<and>
           (\<exists>e1 tr1. processBlock indexer message flags s tr = (e1, s', tr1))"
proof -
  have pre: "inPrefetch plan message =
      (max (genesis_block_height options) (start_h - P) \<le> height message \<and> height message < start_h)"
    unfolding assms(2,4) by (rule prefetch_region)
  have post: "inPostfetch plan message =
      (\<exists>e. end_h = Some e \<and> e \<le> height message \<and> height message < e + Q)"
    unfolding assms(3,4) postfetch_region[OF assms(1)] by (cases end_h) simp_all
  show "(\<not> preprocess_new_transactions flags) =
           (\<exists>e. end_h = Some e \<and> e \<le> height message \<and> height message < e + Q)"
    by (auto simp: assms(5) processingOptions_def post)
  show "(\<not> handle_preprocessed_transactions_by_indexer flags) =
           (max (genesis_block_height options) (start_h - P) \<le> height message \<and> height message < start_h)"
    by (auto simp: assms(5) processingOptions_def pre)
  show "(\<not> handle_raw_events flags) =
           ((max (genesis_block_height options) (start_h - P) \<le> height message \<and> height message < start_h) \<or>
            (\<exists>e. end_h = Some e \<and> e \<le> height message \<and> height message < e + Q))"
    unfolding pre[symmetric] post[symmetric] by (auto simp: assms(5) processingOptions_def)
  show "\<exists>e s' tr'. loop_body indexer options plan message s tr = (e, s', tr') \<and>
           (\<exists>e1 tr1. processBlock indexer message flags s tr = (e1, s', tr1))"
    by (cases "processBlock indexer message (processingOptions plan message) s tr")
       (auto simp: assms(5) loop_body_def split: prod.splits)
qed

text \<open>
  Claim C3 fails for a requested end of \<open>0\<close>. For the range \<open>[0, 0)\<close> with margins
  \<open>1\<close> and \<open>1\<close> the postfetch region is \<open>[0, 1)\<close> and the prefetch region is empty, so
  height \<open>5\<close> lies in neither. The run nevertheless asks the streamer for an
  unbounded window, takes \<open>[0, MAX_SAFE_INTEGER)\<close> for its postfetch range, and
  derives \<open>preprocess_new_transactions = false\<close> and \<open>handle_raw_events = false\<close> for
  height \<open>5\<close>: the raw hook \<open>processBlock\<close> of the indexer is not called for that
  block. The cause is \<open>end_block_height ? ... : ...\<close>, which takes the number \<open>0\<close>
  for an unset end, next to \<open>end_block_height ?? ...\<close>, which does not.
\<close>

theorem flags_at_end_zero:
  "resolve_range end_zero_options [] = (Inr (0, Some 0, None), []) \<and>
   postfetchRange (make_plan end_zero_options 0 (Some 0) None) =
     \<lparr>range_start = 0, range_end = MAX_SAFE_INTEGER\<rparr> \<and>
   endWithPostfetch (make_plan end_zero_options 0 (Some 0) None) = None \<and>
   processingOptions (make_plan end_zero_options 0 (Some 0) None) (ex_message 5 [] []) =
     \<lparr>opt_height = 5, preprocess = True, preprocess_new_transactions = False,
      handle_raw_events = False, handle_preprocessed_transactions_by_indexer = True\<rparr> \<and>
   runIndexer raw_indexer five_streamer end_zero_options =
     (Fulfilled, new_InternalIndexerState, [EvStream 0 None, EvAwaitHandle])"
proof (intro conjI)
  show "resolve_range end_zero_options [] = (Inr (0, Some 0, None), [])"
    by (simp add: resolve_range_def end_zero_options_def defaultOptions_def)
qed code_simp+

lemma extends_by_mono:
  "extends_by P tr tr' \<Longrightarrow> (\<And>ev. P ev \<Longrightarrow> Q ev) \<Longrightarrow> extends_by Q tr tr'"
  by (auto simp: extends_by_def list_all_iff)

lemma is_callback_loop_event: "is_callback ev \<Longrightarrow> is_loop_event ev"
  by (cases ev) (simp_all add: is_callback_def is_loop_event_def)

lemma afterBlock_trace:
  "snd (afterBlock auto m opts stopping tr) =
     tr @ (if stopping then [EvAfterBlock m opts True]
           else [EvAfterBlock m opts False, EvSave (height m + 1)])"
  by (simp add: afterBlock_def Let_def)

lemma post_process_trace:
  "snd (post_process plan m tr) =
     tr @ (case post_processor plan of
             None \<Rightarrow> []
           | Some pp \<Rightarrow>
               if inPrefetch plan m then []
               else if inPostfetch plan m then [EvAfterBlock m (processingOptions plan m) True]
               else [EvAfterBlock m (processingOptions plan m) False, EvSave (height m + 1)])"
  by (simp add: post_process_def afterBlock_trace split: option.splits)

lemma post_process_extends:
  "post_process plan m tr = (e, tr') \<Longrightarrow> extends_by is_loop_event tr tr'"
  using post_process_trace[of plan m tr]
  by (auto simp: extends_by_def is_loop_event_def split: option.splits if_splits)

lemma loop_body_extends:
  assumes "loop_body ix options plan m s tr = (e, s', tr')"
  shows "extends_by is_loop_event tr tr'"
proof -
  obtain e1 s1 tr1 where pb: "processBlock ix m (processingOptions plan m) s tr = (e1, s1, tr1)"
    by (cases "processBlock ix m (processingOptions plan m) s tr") auto
  have x1: "extends_by is_loop_event tr tr1"
    by (rule extends_by_mono[OF processBlock_extends[OF pb]]) (rule is_callback_loop_event)
  show ?thesis
  proof (cases "e1 \<noteq> None \<and> stop_on_error options")
    case True
    with assms pb x1 show ?thesis by (simp add: loop_body_def)
  next
    case False
    with assms pb obtain e2 where "post_process plan m tr1 = (e2, tr')"
      by (auto simp: loop_body_def split: prod.splits)
    from x1 post_process_extends[OF this] show ?thesis by (rule extends_by_trans)
  qed
qed

lemma receiver_loop_extends:
  "receiver_loop ix options plan ms s tr = (e, s', tr') \<Longrightarrow> extends_by is_loop_event tr tr'"
proof (induction ms arbitrary: s tr)
  case Nil
  then show ?case by simp
next
  case (Cons m ms)
  from Cons.prems have "andThen (loop_body ix options plan m s tr) (receiver_loop ix options plan ms) = (e, s', tr')"
    by simp
  then show ?case
    by (rule andThen_extends) (auto intro: loop_body_extends Cons.IH)
qed

lemma filter_join_loop_events:
  "list_all is_loop_event ext \<Longrightarrow> filter is_join_event ext = []"
  by (induction ext) (auto simp: is_join_event_def is_loop_event_def)

lemma resolve_range_trace:
  "resolve_range options tr = (r, tr') \<Longrightarrow> tr' = tr \<or> tr' = tr @ [EvLoad]"
  by (auto simp: resolve_range_def AutoContinue_range_def getStartBlock_def
      split: BlockRange.splits prod.splits sum.splits option.splits)

lemma try_block_trace:
  assumes "try_block ix options plan streamed s tr = (p1, s1, tr1)"
  shows "\<exists>ext. tr1 = tr @ ext \<and> list_all is_loop_event ext"
proof -
  obtain e s' tr' where l: "receiver_loop ix options plan (st_receiver streamed) s tr = (e, s', tr')"
    by (cases "receiver_loop ix options plan (st_receiver streamed) s tr") auto
  from receiver_loop_extends[OF l] have "\<exists>ext. tr' = tr @ ext \<and> list_all is_loop_event ext"
    by (simp add: extends_by_def)
  moreover from assms l have "tr1 = tr'"
    by (cases e) (simp_all add: try_block_def)
  ultimately show ?thesis by simp
qed

lemma finally_block_pending:
  "finally_block ix streamed (Pending, s1, tr1) = (Pending, s1, tr1)"
  by (simp add: finally_block_def)

lemma finally_block_entered:
  assumes "p1 \<noteq> Pending" and "finally_block ix streamed (p1, s1, tr1) = (p, s, tr)"
  shows "s = s1"
    and "tr = tr1 @ EvAwaitHandle #
           (if st_handle streamed = Fulfilled \<and> ix_finalize ix \<noteq> None then [EvFinalize] else [])"
    and "st_handle streamed = Rejected he \<Longrightarrow> p = Rejected he"
    and "st_handle streamed = Pending \<Longrightarrow> p = Pending"
    and "st_handle streamed = Fulfilled \<Longrightarrow> hook_resolves (ix_finalize ix) () (tr1 @ [EvAwaitHandle]) \<Longrightarrow> p = p1"
  using assms
  by (cases p1; cases "st_handle streamed"; cases "ix_finalize ix";
      auto simp: finally_block_def invoke_def hook_resolves_def Let_def split: option.splits)+

text \<open>
  Claim C5, as the claim states it, fails. The first run ends by range exhaustion
  and its indexer defines \<open>finalize\<close>, but the handle is rejected: the run rejects
  with the handle's error and \<open>finalize\<close> is not invoked. The second run is aborted
  under \<open>stop_on_error\<close> by an error of the first block while the handle does not
  settle (as the handle of \<open>ProviderStreamer\<close>, whose loop goes on fetching the rest
  of its window): the run waits for the handle and \<open>finalize\<close> is not invoked.
\<close>

theorem finalize_skipped:
  "ix_finalize finalizing_indexer \<noteq> None \<and>
   runIndexer finalizing_indexer (handle_streamer (Rejected ''join failed'')) stop_options =
     (Rejected ''join failed'', new_InternalIndexerState, [EvStream 100 (Some 102), EvAwaitHandle]) \<and>
   ix_finalize failing_indexer \<noteq> None \<and>
   runIndexer failing_indexer (handle_streamer Pending) stop_options =
     (Pending, new_InternalIndexerState,
      [EvStream 100 (Some 102), EvProcessBlock (ex_message 100 [] []), EvAwaitHandle])"
  by (simp add: finalizing_indexer_def failing_indexer_def no_hooks_def) code_simp

text \<open>
  Claim C5, amended. A run whose range resolution or whose call of \<open>stream\<close> is
  rejected rejects with that error and neither awaits the handle nor invokes
  \<open>finalize\<close>; so does, without ever settling, a run whose loop waits for ever for the
  receiver. In every other run, however the loop ends (the receiver is exhausted,
  \<open>processBlock\<close> throws under \<open>stop_on_error\<close>, the post-processor or the receiver
  throws), the handle is awaited exactly once, after the loop. When the handle is
  fulfilled \<open>finalize\<close> is then invoked exactly once (when the indexer defines it), as
  the last call of the run, and the run ends as its loop did unless \<open>finalize\<close>
  throws. When the handle is rejected the run rejects with the handle's error, and
  when it never settles the run never settles; in both cases \<open>finalize\<close> is not
  invoked.
\<close>

theorem finalize_after_handle:
  assumes "runIndexer indexer streamer options = (p, s, tr)"
  shows "(resolve_range options [] = (Inl e, tr0) \<longrightarrow>
            p = Rejected e \<and> filter is_join_event tr = []) \<and>
         (resolve_range options [] = (Inr (st, en, pp), tr0) \<and> plan = make_plan options st en pp \<longrightarrow>
            (streamer (startWithPrefetch plan) (endWithPostfetch plan) = Inl e \<longrightarrow>
               p = Rejected e \<and> filter is_join_event tr = []) \<and>
            (streamer (startWithPrefetch plan) (endWithPostfetch plan) = Inr streamed \<and>
             try_block indexer options plan streamed new_InternalIndexerState
               (tr0 @ [EvStream (startWithPrefetch plan) (endWithPostfetch plan)]) = (p1, s1, tr1) \<longrightarrow>
               s = s1 \<and> filter is_join_event tr1 = [] \<and>
               (p1 = Pending \<longrightarrow> p = Pending \<and> tr = tr1) \<and>
               (p1 \<noteq> Pending \<longrightarrow>
                  tr = tr1 @ EvAwaitHandle #
                         (if st_handle streamed = Fulfilled \<and> ix_finalize indexer \<noteq> None then [EvFinalize] else []) \<and>
                  filter is_join_event tr =
                    EvAwaitHandle #
                      (if st_handle streamed = Fulfilled \<and> ix_finalize indexer \<noteq> None then [EvFinalize] else []) \<and>
                  (st_handle streamed = Rejected he \<longrightarrow> p = Rejected he) \<and>
                  (st_handle streamed = Pending \<longrightarrow> p = Pending) \<and>
                  (st_handle streamed = Fulfilled \<and>
                   hook_resolves (ix_finalize indexer) () (tr1 @ [EvAwaitHandle]) \<longrightarrow> p = p1))))"
proof (intro conjI impI; (elim conjE)?)
  assume r: "resolve_range options [] = (Inl e, tr0)"
  with assms have "p = Rejected e" "tr = tr0" by (simp_all add: runIndexer_def)
  moreover from resolve_range_trace[OF r] have "filter is_join_event tr0 = []"
    by (auto simp: is_join_event_def)
  ultimately show "p = Rejected e" "filter is_join_event tr = []" by simp_all
next
  assume r: "resolve_range options [] = (Inr (st, en, pp), tr0)" and pl: "plan = make_plan options st en pp"
    and st: "streamer (startWithPrefetch plan) (endWithPostfetch plan) = Inl e"
  with assms have "p = Rejected e" "tr = tr0 @ [EvStream (startWithPrefetch plan) (endWithPostfetch plan)]"
    by (simp_all add: runIndexer_def Let_def)
  moreover from resolve_range_trace[OF r] have "filter is_join_event tr0 = []"
    by (auto simp: is_join_event_def)
  ultimately show "p = Rejected e" "filter is_join_event tr = []" by (simp_all add: is_join_event_def)
next
  assume r: "resolve_range options [] = (Inr (st, en, pp), tr0)" and pl: "plan = make_plan options st en pp"
    and st: "streamer (startWithPrefetch plan) (endWithPostfetch plan) = Inr streamed"
    and tb: "try_block indexer options plan streamed new_InternalIndexerState
               (tr0 @ [EvStream (startWithPrefetch plan) (endWithPostfetch plan)]) = (p1, s1, tr1)"
  from assms r pl st tb have fin: "finally_block indexer streamed (p1, s1, tr1) = (p, s, tr)"
    by (simp add: runIndexer_def Let_def run_stream_def)
  from try_block_trace[OF tb] obtain ext where
    ext: "tr1 = (tr0 @ [EvStream (startWithPrefetch plan) (endWithPostfetch plan)]) @ ext"
      "list_all is_loop_event ext" by blast
  from resolve_range_trace[OF r] have "filter is_join_event tr0 = []"
    by (auto simp: is_join_event_def)
  with ext filter_join_loop_events[OF ext(2)] show quiet: "filter is_join_event tr1 = []"
    by (simp add: is_join_event_def)
  show "s = s1"
    using fin by (cases "p1 = Pending") (simp_all add: finally_block_pending finally_block_entered(1))
  {
    assume "p1 = Pending"
    with fin show "p = Pending" "tr = tr1" by (simp_all add: finally_block_pending)
  }
  {
    assume ne: "p1 \<noteq> Pending"
    note f = finally_block_entered[OF ne fin]
    show tr: "tr = tr1 @ EvAwaitHandle #
        (if st_handle streamed = Fulfilled \<and> ix_finalize indexer \<noteq> None then [EvFinalize] else [])"
      by (rule f(2))
    show "filter is_join_event tr =
        EvAwaitHandle # (if st_handle streamed = Fulfilled \<and> ix_finalize indexer \<noteq> None then [EvFinalize] else [])"
      unfolding tr using quiet by (simp add: is_join_event_def)
    {
      assume "st_handle streamed = Rejected he"
      then show "p = Rejected he" by (rule f(3))
    }
    {
      assume "st_handle streamed = Pending"
      then show "p = Pending" by (rule f(4))
    }
    {
      assume "st_handle streamed = Fulfilled" "hook_resolves (ix_finalize indexer) () (tr1 @ [EvAwaitHandle])"
      then show "p = p1" by (rule f(5))
    }
  }
qed

text \<open>
  A run under \<open>stop_on_error\<close> whose \<open>processBlock\<close> hook throws on the first block and
  whose handle is fulfilled, and a run that exhausts its range and whose handle is
  rejected.
\<close>

theorem finalize_after_handle_witness:
  "runIndexer failing_indexer ex_streamer stop_options =
     (Rejected ''boom'', new_InternalIndexerState,
      [EvStream 100 (Some 102), EvProcessBlock (ex_message 100 [] []), EvAwaitHandle, EvFinalize]) \<and>
   runIndexer finalizing_indexer (handle_streamer (Rejected ''join failed'')) stop_options =
     (Rejected ''join failed'', new_InternalIndexerState, [EvStream 100 (Some 102), EvAwaitHandle])"
proof -
  let ?plan = "make_plan stop_options 100 (Some 102) None"
  have r: "resolve_range stop_options [] = (Inr (100, Some 102, None), [])"
    by (simp add: resolve_range_def stop_options_def defaultOptions_def)
  have w: "startWithPrefetch ?plan = 100" "endWithPostfetch ?plan = Some 102"
    by (simp_all add: make_plan_def stop_options_def defaultOptions_def)
  have st1: "ex_streamer (startWithPrefetch ?plan) (endWithPostfetch ?plan) = Inr ex_streamed"
    by (simp add: ex_streamer_def)
  have tb1: "try_block failing_indexer stop_options ?plan ex_streamed new_InternalIndexerState
      ([] @ [EvStream (startWithPrefetch ?plan) (endWithPostfetch ?plan)]) =
      (Rejected ''boom'', new_InternalIndexerState, [EvStream 100 (Some 102), EvProcessBlock (ex_message 100 [] [])])"
    by code_simp
  have fz: "st_handle ex_streamed = Fulfilled" "ix_finalize failing_indexer \<noteq> None"
    "hook_resolves (ix_finalize failing_indexer) () tr" for tr
    by (simp_all add: ex_streamed_def failing_indexer_def no_hooks_def hook_resolves_def)
  obtain p s tr where run1: "runIndexer failing_indexer ex_streamer stop_options = (p, s, tr)"
    by (cases "runIndexer failing_indexer ex_streamer stop_options") auto
  from finalize_after_handle[OF run1, where ?tr0.0 = "[]" and st = 100 and en = "Some 102" and pp = None
      and plan = ?plan and streamed = ex_streamed and ?p1.0 = "Rejected ''boom''"
      and ?s1.0 = new_InternalIndexerState
      and ?tr1.0 = "[EvStream 100 (Some 102), EvProcessBlock (ex_message 100 [] [])]"]
    r st1 tb1 fz
  have a: "p = Rejected ''boom''" "s = new_InternalIndexerState"
    "tr = [EvStream 100 (Some 102), EvProcessBlock (ex_message 100 [] []), EvAwaitHandle, EvFinalize]"
    by simp_all
  let ?streamed2 = "ex_streamed\<lparr>st_handle := Rejected ''join failed''\<rparr>"
  have st2: "handle_streamer (Rejected ''join failed'') (startWithPrefetch ?plan) (endWithPostfetch ?plan) =
      Inr ?streamed2"
    by (simp add: handle_streamer_def)
  have tb2: "try_block finalizing_indexer stop_options ?plan ?streamed2 new_InternalIndexerState
      ([] @ [EvStream (startWithPrefetch ?plan) (endWithPostfetch ?plan)]) =
      (Fulfilled, new_InternalIndexerState, [EvStream 100 (Some 102)])"
    by code_simp
  obtain p' s' tr' where
    run2: "runIndexer finalizing_indexer (handle_streamer (Rejected ''join failed'')) stop_options = (p', s', tr')"
    by (cases "runIndexer finalizing_indexer (handle_streamer (Rejected ''join failed'')) stop_options") auto
  from finalize_after_handle[OF run2, where ?tr0.0 = "[]" and st = 100 and en = "Some 102" and pp = None
      and plan = ?plan and streamed = ?streamed2 and ?p1.0 = Fulfilled
      and ?s1.0 = new_InternalIndexerState and ?tr1.0 = "[EvStream 100 (Some 102)]"
      and he = "''join failed''"]
    r st2 tb2
  have b: "p' = Rejected ''join failed''" "s' = new_InternalIndexerState"
    "tr' = [EvStream 100 (Some 102), EvAwaitHandle]"
    by simp_all
  from run1 a run2 b show ?thesis by simp
qed

section \<open>The resume cursor\<close>

text \<open>
  Claim C9, as the claim states it, fails: a \<open>load\<close> that rejects is not treated as
  an absent cursor. \<open>getStartBlock\<close> rejects with the same error instead of returning
  the default start \<open>100\<close>, and the run ends with that error before the stream is
  started.
\<close>

theorem load_failure_propagates:
  "fst (getStartBlock (ex_auto failing_location Infinite) []) = Inl ''load failed'' \<and>
   fst (getStartBlock (ex_auto failing_location Infinite) []) \<noteq> Inr 100 \<and>
   runIndexer no_hooks ex_streamer (defaultOptions (AutoContinueRange (ex_auto failing_location Infinite))) =
     (Rejected ''load failed'', new_InternalIndexerState, [EvLoad])"
  by code_simp

text \<open>
  Claim C9, amended. When \<open>load\<close> resolves with \<open>undefined\<close> the start is
  \<open>start_height_if_does_not_exist\<close>; when it resolves with a height the start is that
  height; when it rejects, the error is not caught: \<open>getStartBlock\<close> rejects with
  it, and so do range resolution and \<open>runIndexer\<close> (which then has called nothing
  but \<open>load\<close>).
\<close>

theorem getStartBlock_cases:
  "(sl_load (save_location this) tr = Inr None \<longrightarrow>
      getStartBlock this tr = (Inr (start_height_if_does_not_exist this), tr @ [EvLoad])) \<and>
   (sl_load (save_location this) tr = Inr (Some h) \<longrightarrow>
      getStartBlock this tr = (Inr h, tr @ [EvLoad])) \<and>
   (sl_load (save_location this) tr = Inl e \<longrightarrow>
      getStartBlock this tr = (Inl e, tr @ [EvLoad]) \<and>
      (block_range options = AutoContinueRange this \<longrightarrow>
         resolve_range options tr = (Inl e, tr @ [EvLoad]) \<and>
         (tr = [] \<longrightarrow> runIndexer indexer streamer options = (Rejected e, new_InternalIndexerState, [EvLoad]))))"
  by (auto simp: getStartBlock_def resolve_range_def AutoContinue_range_def runIndexer_def Let_def)

text \<open>An unset cursor, a stored cursor and a failing \<open>load\<close>.\<close>

theorem getStartBlock_cases_witness:
  "getStartBlock (ex_auto empty_location Infinite) [] = (Inr 100, [EvLoad]) \<and>
   getStartBlock (ex_auto (empty_location\<lparr>sl_load := (\<lambda>tr. Inr (Some 7))\<rparr>) Infinite) [] = (Inr 7, [EvLoad]) \<and>
   getStartBlock (ex_auto failing_location Infinite) [] = (Inl ''load failed'', [EvLoad]) \<and>
   resolve_range (defaultOptions (AutoContinueRange (ex_auto failing_location Infinite))) [] = (Inl ''load failed'', [EvLoad]) \<and>
   runIndexer no_hooks ex_streamer (defaultOptions (AutoContinueRange (ex_auto failing_location Infinite))) =
     (Rejected ''load failed'', new_InternalIndexerState, [EvLoad])"
  using getStartBlock_cases [of "ex_auto empty_location Infinite" "[]"]
    getStartBlock_cases [of "ex_auto (empty_location\<lparr>sl_load := (\<lambda>tr. Inr (Some 7))\<rparr>) Infinite" "[]" 7]
    getStartBlock_cases [of "ex_auto failing_location Infinite" "[]" 0 "''load failed''"
      "defaultOptions (AutoContinueRange (ex_auto failing_location Infinite))" no_hooks ex_streamer]
  by (simp add: ex_auto_def empty_location_def failing_location_def defaultOptions_def)



section \<open>The open set\<close>

lemma set_update_subset: "set (AList.update k v al) \<subseteq> insert (k, v) (set al)"
  by (induction al) auto

lemma set_delete_subset: "set (AList.delete k al) \<subseteq> set al"
  by (auto simp: AList.delete_eq)

lemma update_in_set: "(k, v) \<in> set (AList.update k v al)"
  by (induction al) auto

lemma fold_null_values:
  "snd ` set m \<subseteq> {None} \<Longrightarrow> snd ` set (fold (\<lambda>r. AList.update r None) ids m) \<subseteq> {None}"
proof (induction ids arbitrary: m)
  case Nil
  then show ?case by simp
next
  case (Cons r ids)
  have "snd ` set (AList.update r None m) \<subseteq> {None}"
    using Cons.prems set_update_subset[of r None m] by fastforce
  from Cons.IH[OF this] show ?case by simp
qed

lemma fold_null_nonempty:
  "m \<noteq> [] \<or> ids \<noteq> [] \<Longrightarrow> fold (\<lambda>r. AList.update r None) ids m \<noteq> []"
  by (induction ids arbitrary: m) auto

lemma all_null_not_resolved:
  "m \<noteq> [] \<Longrightarrow> snd ` set m \<subseteq> {None} \<Longrightarrow> \<not> list_all (\<lambda>r. r \<noteq> None) (Map_values m)"
  by (cases m) auto

lemma new_receipts_open_ok:
  "open_ok \<lparr>it_transaction = tx, it_receipts = fold (\<lambda>r. AList.update r None) ids []\<rparr>"
proof (cases ids)
  case Nil
  then show ?thesis by (simp add: open_ok_def)
next
  case (Cons r rest)
  have "fold (\<lambda>r. AList.update r None) ids [] \<noteq> []"
    using Cons fold_null_nonempty[of "[]" ids] by simp
  moreover have "snd ` set (fold (\<lambda>r. AList.update r None) ids []) \<subseteq> {None}"
    by (rule fold_null_values) simp
  ultimately have "\<not> list_all (\<lambda>r. r \<noteq> None) (Map_values (fold (\<lambda>r. AList.update r None) ids []))"
    by (rule all_null_not_resolved)
  then show ?thesis
    unfolding open_ok_def IncompleteTransaction.select_convs by (rule disjI2)
qed

lemma list_all_update:
  "list_all P al \<Longrightarrow> P (k, v) \<Longrightarrow> list_all P (AList.update k v al)"
  using set_update_subset[of k v al] by (auto simp: list_all_iff)

lemma list_all_delete:
  "list_all P al \<Longrightarrow> list_all P (AList.delete k al)"
  using set_delete_subset[of k al] by (auto simp: list_all_iff)

lemma register_tx_open_inv:
  "open_inv s \<Longrightarrow> open_inv (register_tx opts tx s)"
  by (simp add: register_tx_def Let_def open_inv_def list_all_update new_receipts_open_ok)

lemma andThen_state:
  assumes "andThen r f = (e, s', tr')"
    and "\<And>e1 s1 tr1. r = (e1, s1, tr1) \<Longrightarrow> P s1"
    and "\<And>s1 tr1. P s1 \<Longrightarrow> f s1 tr1 = (e, s', tr') \<Longrightarrow> P s'"
  shows "P s'"
proof -
  obtain e1 s1 tr1 where r: "r = (e1, s1, tr1)" by (cases r) auto
  show ?thesis
  proof (cases e1)
    case None
    with assms(1) r have "f s1 tr1 = (e, s', tr')" by simp
    from assms(3)[OF assms(2)[OF r] this] show ?thesis .
  next
    case (Some a)
    with assms(1) r assms(2)[OF r] show ?thesis by simp
  qed
qed

lemma tx_step_open_inv:
  "open_inv s \<Longrightarrow> tx_step ix m opts tx s tr = (e, s', tr') \<Longrightarrow> open_inv s'"
  by (auto simp: tx_step_def Let_def register_tx_open_inv split: prod.splits)

lemma tx_loop_open_inv:
  "open_inv s \<Longrightarrow> tx_loop ix m opts txs s tr = (e, s', tr') \<Longrightarrow> open_inv s'"
proof (induction txs arbitrary: s tr)
  case Nil
  then show ?case by simp
next
  case (Cons tx txs)
  from Cons.prems(2) have "andThen (tx_step ix m opts tx s tr) (tx_loop ix m opts txs) = (e, s', tr')"
    by simp
  then show ?case
    by (rule andThen_state) (auto intro: tx_step_open_inv[OF Cons.prems(1)] Cons.IH)
qed

lemma shards_tx_loop_open_inv:
  "open_inv s \<Longrightarrow> shards_tx_loop ix m opts shs s tr = (e, s', tr') \<Longrightarrow> open_inv s'"
proof (induction shs arbitrary: s tr)
  case Nil
  then show ?case by simp
next
  case (Cons sh shs)
  show ?case
  proof (cases "chunk sh")
    case None
    with Cons show ?thesis by simp
  next
    case (Some txs)
    with Cons.prems(2) have "andThen (tx_loop ix m opts txs s tr) (shards_tx_loop ix m opts shs) = (e, s', tr')"
      by simp
    then show ?thesis
      by (rule andThen_state) (auto intro: tx_loop_open_inv[OF Cons.prems(1)] Cons.IH)
  qed
qed

lemma resolve_receipt_open_inv:
  assumes "open_inv s" and "resolve_receipt ix m opts rc txId inc s tr = (e, s', tr')"
  shows "open_inv s'"
proof -
  let ?processed = "make_processed rc m"
  obtain e1 tr1 where i1: "invoke (handle_preprocessed_transactions_by_indexer opts) (ix_onReceipt ix)
      (?processed, inc, m) (EvOnReceipt ?processed inc m) tr = (e1, tr1)"
    by (cases "invoke (handle_preprocessed_transactions_by_indexer opts) (ix_onReceipt ix)
      (?processed, inc, m) (EvOnReceipt ?processed inc m) tr") auto
  show ?thesis
  proof (cases e1)
    case (Some a)
    with assms i1 show ?thesis by (simp add: resolve_receipt_def Let_def)
  next
    case None
    obtain r2t rs2 where fo: "follow_on txId (r_receipt_ids rc)
        (receiptToTx s, Map_set (r_receipt_id rc) (Some ?processed) (it_receipts inc)) = (r2t, rs2)"
      by (cases "follow_on txId (r_receipt_ids rc)
        (receiptToTx s, Map_set (r_receipt_id rc) (Some ?processed) (it_receipts inc))") auto
    show ?thesis
    proof (cases "list_all (\<lambda>r. r \<noteq> None) (Map_values rs2)")
      case True
      with assms i1 None fo have "pendingTransactions s' =
          Map_delete txId (Map_set txId (inc\<lparr>it_receipts := rs2\<rparr>) (pendingTransactions s))"
        by (auto simp: resolve_receipt_def Let_def split: prod.splits)
      then have "pendingTransactions s' = Map_delete txId (pendingTransactions s)"
        by (simp add: delete_update_same)
      with assms(1) show ?thesis by (simp add: open_inv_def list_all_delete)
    next
      case False
      with assms i1 None fo have "pendingTransactions s' =
          Map_set txId (inc\<lparr>it_receipts := rs2\<rparr>) (pendingTransactions s)"
        by (auto simp: resolve_receipt_def Let_def split: prod.splits)
      moreover from False have "open_ok (inc\<lparr>it_receipts := rs2\<rparr>)"
        by (simp add: open_ok_def)
      ultimately show ?thesis using assms(1) by (simp add: open_inv_def list_all_update)
    qed
  qed
qed

lemma receipt_step_open_inv:
  assumes "open_inv s" and "receipt_step ix m opts rc s tr = (e, s', tr')"
  shows "open_inv s'"
  using assms(2) unfolding receipt_step_def
  apply (rule andThen_state)
   apply (auto split: option.splits if_splits prod.splits
      intro: assms(1) resolve_receipt_open_inv[OF assms(1)])
  done

lemma receipt_loop_open_inv:
  "open_inv s \<Longrightarrow> receipt_loop ix m opts rcs s tr = (e, s', tr') \<Longrightarrow> open_inv s'"
proof (induction rcs arbitrary: s tr)
  case Nil
  then show ?case by simp
next
  case (Cons rc rcs)
  from Cons.prems(2) have "andThen (receipt_step ix m opts rc s tr) (receipt_loop ix m opts rcs) = (e, s', tr')"
    by simp
  then show ?case
    by (rule andThen_state) (auto intro: receipt_step_open_inv[OF Cons.prems(1)] Cons.IH)
qed

lemma shards_receipt_loop_open_inv:
  "open_inv s \<Longrightarrow> shards_receipt_loop ix m opts shs s tr = (e, s', tr') \<Longrightarrow> open_inv s'"
proof (induction shs arbitrary: s tr)
  case Nil
  then show ?case by simp
next
  case (Cons sh shs)
  from Cons.prems(2) have "andThen (receipt_loop ix m opts (receipt_execution_outcomes sh) s tr)
      (shards_receipt_loop ix m opts shs) = (e, s', tr')"
    by simp
  then show ?case
    by (rule andThen_state) (auto intro: receipt_loop_open_inv[OF Cons.prems(1)] Cons.IH)
qed

text \<open>
  Whatever the hooks do, a block leaves no open transaction with a non-empty,
  fully resolved mapping behind.
\<close>

lemma processBlock_open_inv:
  assumes "open_inv s" and "processBlock ix m opts s tr = (e, s', tr')"
  shows "open_inv s'"
proof -
  obtain e0 tr0 where i0: "invoke (handle_raw_events opts) (ix_processBlock ix) m (EvProcessBlock m) tr = (e0, tr0)"
    by (cases "invoke (handle_raw_events opts) (ix_processBlock ix) m (EvProcessBlock m) tr") auto
  from assms(2) i0 have "andThen (e0, s, tr0) (\<lambda>s tr.
         andThen (shards_tx_loop ix m opts (shards m) s tr) (\<lambda>s tr.
         andThen (shards_receipt_loop ix m opts (shards m) s tr) (\<lambda>s tr.
           let (e, tr') = invoke True (ix_processBlockEnd ix) m (EvProcessBlockEnd m) tr
           in (e, s, tr')))) = (e, s', tr')"
    by (simp add: processBlock_def)
  then show ?thesis
  proof (rule andThen_state)
    fix s1 tr1
    assume "open_inv s1" and "andThen (shards_tx_loop ix m opts (shards m) s1 tr1) (\<lambda>s tr.
         andThen (shards_receipt_loop ix m opts (shards m) s tr) (\<lambda>s tr.
           let (e, tr') = invoke True (ix_processBlockEnd ix) m (EvProcessBlockEnd m) tr
           in (e, s, tr'))) = (e, s', tr')"
    from this(2) show "open_inv s'"
    proof (rule andThen_state)
      fix s2 tr2
      assume "open_inv s2" and "andThen (shards_receipt_loop ix m opts (shards m) s2 tr2) (\<lambda>s tr.
           let (e, tr') = invoke True (ix_processBlockEnd ix) m (EvProcessBlockEnd m) tr
           in (e, s, tr')) = (e, s', tr')"
      from this(2) show "open_inv s'"
      proof (rule andThen_state)
        fix s3 tr3
        assume "open_inv s3" and "(let (e, tr') = invoke True (ix_processBlockEnd ix) m (EvProcessBlockEnd m) tr3
           in (e, s3, tr')) = (e, s', tr')"
        then show "open_inv s'" by (auto split: prod.splits)
      qed (auto intro: shards_receipt_loop_open_inv[OF \<open>open_inv s2\<close>])
    qed (auto intro: shards_tx_loop_open_inv[OF \<open>open_inv s1\<close>])
  qed (use assms(1) in auto)
qed

lemma invoke_resolves:
  "hook_resolves hk a tr \<Longrightarrow>
   invoke c hk a ev tr = (None, if c \<and> hk \<noteq> None then tr @ [ev] else tr)"
  by (auto simp: invoke_def hook_resolves_def split: option.splits)

lemma invoke_trace:
  "invoke c hk a ev tr = (e, tr') \<Longrightarrow> tr' = (if c \<and> hk \<noteq> None then tr @ [ev] else tr)"
  by (auto simp: invoke_def split: option.splits if_splits)

lemma resolve_receipt_completion:
  assumes "hook_resolves (ix_onReceipt ix) (make_processed rc m, inc, m) tr"
    and "rs2 = snd (follow_on txId (r_receipt_ids rc)
            (receiptToTx s, Map_set (r_receipt_id rc) (Some (make_processed rc m)) (it_receipts inc)))"
    and "resolve_receipt ix m opts rc txId inc s tr = (e, s', tr')"
    and "tr1 = (if handle_preprocessed_transactions_by_indexer opts \<and> ix_onReceipt ix \<noteq> None
                then tr @ [EvOnReceipt (make_processed rc m) inc m] else tr)"
  shows "if list_all (\<lambda>r. r \<noteq> None) (Map_values rs2)
         then Map_get (pendingTransactions s') txId = None \<and>
              tr' = (if handle_preprocessed_transactions_by_indexer opts \<and> ix_onTransaction ix \<noteq> None
                     then tr1 @ [EvOnTransaction \<lparr>ct_transaction = it_transaction inc,
                                    ct_receipts = map the (Map_values rs2)\<rparr> m]
                     else tr1)
         else Map_get (pendingTransactions s') txId = Some (inc\<lparr>it_receipts := rs2\<rparr>) \<and> tr' = tr1"
proof -
  obtain r2t where fo: "follow_on txId (r_receipt_ids rc)
        (receiptToTx s, Map_set (r_receipt_id rc) (Some (make_processed rc m)) (it_receipts inc)) = (r2t, rs2)"
    using assms(2) by (metis prod.collapse)
  show ?thesis
    using assms(3) fo
    by (auto simp: resolve_receipt_def Let_def invoke_resolves[OF assms(1)] assms(4)
        update_conv' delete_conv' split: prod.splits dest!: invoke_trace)
qed

lemma receipt_step_completion:
  assumes own: "Map_get (receiptToTx s) (r_receipt_id rc) = Some txId" "txId \<noteq> []" "preprocess opts"
      "Map_get (pendingTransactions s) txId = Some inc"
    and res: "hook_resolves (ix_onReceipt ix) (make_processed rc m, inc, m) tr"
    and rs2: "rs2 = snd (follow_on txId (r_receipt_ids rc)
            (receiptToTx s, Map_set (r_receipt_id rc) (Some (make_processed rc m)) (it_receipts inc)))"
    and step: "receipt_step ix m opts rc s tr = (e, s', tr')"
  shows "if list_all (\<lambda>r. r \<noteq> None) (Map_values rs2)
         then Map_get (pendingTransactions s') txId = None \<and>
              filter is_onTransaction tr' = filter is_onTransaction tr @
                (if handle_preprocessed_transactions_by_indexer opts \<and> ix_onTransaction ix \<noteq> None
                 then [EvOnTransaction \<lparr>ct_transaction = it_transaction inc,
                                        ct_receipts = map the (Map_values rs2)\<rparr> m]
                 else [])
         else Map_get (pendingTransactions s') txId = Some (inc\<lparr>it_receipts := rs2\<rparr>) \<and>
              filter is_onTransaction tr' = filter is_onTransaction tr"
proof -
  obtain e1 s1 tr1 where rr: "resolve_receipt ix m opts rc txId inc s tr = (e1, s1, tr1)"
    by (cases "resolve_receipt ix m opts rc txId inc s tr") auto
  from step own rr have "andThen (e1, s1, tr1) (\<lambda>s tr.
          let (e, tr') = invoke (handle_raw_events opts) (ix_processReceipt ix)
                           (rc, m) (EvProcessReceipt rc m) tr
          in (e, s, tr')) = (e, s', tr')"
    by (simp add: receipt_step_def)
  then have s': "s' = s1"
    and tr': "tr' = tr1 \<or> tr' = tr1 @ [EvProcessReceipt rc m]"
    by (cases e1; auto split: prod.splits if_splits dest!: invoke_trace)+
  from tr' have f: "filter is_onTransaction tr' = filter is_onTransaction tr1"
    by (auto simp: is_onTransaction_def)
  from resolve_receipt_completion[OF res rs2 rr refl] show ?thesis
    unfolding s' f by (auto simp: is_onTransaction_def split: if_splits)
qed

lemma register_tx_opens:
  "preprocess opts \<Longrightarrow> preprocess_new_transactions opts \<Longrightarrow>
   Map_get (pendingTransactions (register_tx opts tx s)) (tx_hash tx) =
     Some \<lparr>it_transaction = tx, it_receipts = fold (\<lambda>r. Map_set r None) (tx_receipt_ids tx) []\<rparr>"
  by (simp add: register_tx_def Let_def update_conv')

text \<open>
  Claim C6, amended. The completion test runs only where a receipt is resolved.
  When the resolution of a receipt of an open transaction leaves every entry of the
  mapping resolved, the transaction is removed from the open set and
  \<open>onTransaction\<close> is called with the resolved receipts (if the hook is defined and
  the options emit correlated events); otherwise the transaction stays open with
  the receipt recorded and \<open>onTransaction\<close> is not called. Hence a block never
  leaves an open transaction whose non-empty mapping is fully resolved.
  Registration opens the transaction with every initial id unresolved and
  completes nothing.
\<close>

theorem open_transaction_lifecycle:
  "(open_inv s \<longrightarrow> open_inv (fst (snd (processBlock ix m opts s tr)))) \<and>
   (preprocess opts \<and> preprocess_new_transactions opts \<longrightarrow>
      Map_get (pendingTransactions (register_tx opts tx s)) (tx_hash tx) =
        Some \<lparr>it_transaction = tx, it_receipts = fold (\<lambda>r. Map_set r None) (tx_receipt_ids tx) []\<rparr>) \<and>
   (Map_get (receiptToTx s) (r_receipt_id rc) = Some txId \<and> txId \<noteq> [] \<and> preprocess opts \<and>
    Map_get (pendingTransactions s) txId = Some inc \<and>
    hook_resolves (ix_onReceipt ix) (make_processed rc m, inc, m) tr \<and>
    rs2 = snd (follow_on txId (r_receipt_ids rc)
            (receiptToTx s, Map_set (r_receipt_id rc) (Some (make_processed rc m)) (it_receipts inc))) \<longrightarrow>
    (if list_all (\<lambda>r. r \<noteq> None) (Map_values rs2)
     then Map_get (pendingTransactions (fst (snd (receipt_step ix m opts rc s tr)))) txId = None \<and>
          filter is_onTransaction (snd (snd (receipt_step ix m opts rc s tr))) =
            filter is_onTransaction tr @
              (if handle_preprocessed_transactions_by_indexer opts \<and> ix_onTransaction ix \<noteq> None
               then [EvOnTransaction \<lparr>ct_transaction = it_transaction inc,
                                      ct_receipts = map the (Map_values rs2)\<rparr> m]
               else [])
     else Map_get (pendingTransactions (fst (snd (receipt_step ix m opts rc s tr)))) txId =
            Some (inc\<lparr>it_receipts := rs2\<rparr>) \<and>
          filter is_onTransaction (snd (snd (receipt_step ix m opts rc s tr))) = filter is_onTransaction tr))"
proof (intro conjI impI)
  assume "open_inv s"
  then show "open_inv (fst (snd (processBlock ix m opts s tr)))"
    by (cases "processBlock ix m opts s tr") (auto dest: processBlock_open_inv)
next
  assume "preprocess opts \<and> preprocess_new_transactions opts"
  then show "Map_get (pendingTransactions (register_tx opts tx s)) (tx_hash tx) =
        Some \<lparr>it_transaction = tx, it_receipts = fold (\<lambda>r. Map_set r None) (tx_receipt_ids tx) []\<rparr>"
    by (simp add: register_tx_opens)
next
  assume a: "Map_get (receiptToTx s) (r_receipt_id rc) = Some txId \<and> txId \<noteq> [] \<and> preprocess opts \<and>
    Map_get (pendingTransactions s) txId = Some inc \<and>
    hook_resolves (ix_onReceipt ix) (make_processed rc m, inc, m) tr \<and>
    rs2 = snd (follow_on txId (r_receipt_ids rc)
            (receiptToTx s, Map_set (r_receipt_id rc) (Some (make_processed rc m)) (it_receipts inc)))"
  obtain e s' tr' where step: "receipt_step ix m opts rc s tr = (e, s', tr')"
    by (cases "receipt_step ix m opts rc s tr") auto
  from a have own: "Map_get (receiptToTx s) (r_receipt_id rc) = Some txId" "txId \<noteq> []" "preprocess opts"
      "Map_get (pendingTransactions s) txId = Some inc"
    and res: "hook_resolves (ix_onReceipt ix) (make_processed rc m, inc, m) tr"
    and rs2: "rs2 = snd (follow_on txId (r_receipt_ids rc)
            (receiptToTx s, Map_set (r_receipt_id rc) (Some (make_processed rc m)) (it_receipts inc)))"
    by simp_all
  from receipt_step_completion[OF own res rs2 step]
  show "if list_all (\<lambda>r. r \<noteq> None) (Map_values rs2)
     then Map_get (pendingTransactions (fst (snd (receipt_step ix m opts rc s tr)))) txId = None \<and>
          filter is_onTransaction (snd (snd (receipt_step ix m opts rc s tr))) =
            filter is_onTransaction tr @
              (if handle_preprocessed_transactions_by_indexer opts \<and> ix_onTransaction ix \<noteq> None
               then [EvOnTransaction \<lparr>ct_transaction = it_transaction inc,
                                      ct_receipts = map the (Map_values rs2)\<rparr> m]
               else [])
     else Map_get (pendingTransactions (fst (snd (receipt_step ix m opts rc s tr)))) txId =
            Some (inc\<lparr>it_receipts := rs2\<rparr>) \<and>
          filter is_onTransaction (snd (snd (receipt_step ix m opts rc s tr))) = filter is_onTransaction tr"
    unfolding step by simp
qed

text \<open>
  Claim C6, as the claim states it, fails in its last part: a transaction
  registered with no initial receipt ids is not destroyed upon registration. Its
  mapping is empty (so every entry is resolved), it is still in the open set after
  the block, and \<open>onTransaction\<close> was not called.
\<close>

theorem zero_receipts_stay_open:
  "processBlock watcher (ex_message 100 [ex_tx ''T'' []] []) (in_range_options 100) new_InternalIndexerState [] =
     (None,
      \<lparr>pendingTransactions = [(''T'', \<lparr>it_transaction = ex_tx ''T'' [], it_receipts = []\<rparr>)],
       receiptToTx = []\<rparr>,
      []) \<and>
   list_all (\<lambda>r. r \<noteq> None) (Map_values (it_receipts \<lparr>it_transaction = ex_tx ''T'' [], it_receipts = []\<rparr>))"
  by code_simp

text \<open>
  A receipt that completes its transaction, one that produces a follow-on receipt
  and leaves it open, and the registration of a transaction without receipt ids.
\<close>

theorem open_transaction_lifecycle_witness:
  "open_inv registered_state \<and>
   open_inv (fst (snd (processBlock watcher (ex_message 100 [] [ex_receipt ''r1'' (SuccessValue None) []])
                         (in_range_options 100) registered_state []))) \<and>
   Map_get (pendingTransactions (register_tx (in_range_options 100) (ex_tx ''Z'' []) registered_state)) ''Z'' =
     Some \<lparr>it_transaction = ex_tx ''Z'' [], it_receipts = []\<rparr> \<and>
   Map_get (pendingTransactions (fst (snd (receipt_step watcher
       (ex_message 100 [] [ex_receipt ''r1'' (SuccessValue None) []])
       (in_range_options 100) (ex_receipt ''r1'' (SuccessValue None) []) registered_state [])))) ''T'' = None \<and>
   filter is_onTransaction (snd (snd (receipt_step watcher
       (ex_message 100 [] [ex_receipt ''r1'' (SuccessValue None) []])
       (in_range_options 100) (ex_receipt ''r1'' (SuccessValue None) []) registered_state []))) =
     [EvOnTransaction
        \<lparr>ct_transaction = ex_tx ''T'' [''r1''],
         ct_receipts = [\<lparr>receipt = ex_receipt ''r1'' (SuccessValue None) [], block_height = 100,
                         block_timestamp_nanosec = ''17''\<rparr>]\<rparr>
        (ex_message 100 [] [ex_receipt ''r1'' (SuccessValue None) []])] \<and>
   Map_get (pendingTransactions (fst (snd (receipt_step watcher
       (ex_message 100 [] [ex_receipt ''r1'' (SuccessReceiptId ''r2'') [''r2'']])
       (in_range_options 100) (ex_receipt ''r1'' (SuccessReceiptId ''r2'') [''r2'']) registered_state [])))) ''T'' =
     Some \<lparr>it_transaction = ex_tx ''T'' [''r1''],
           it_receipts = [(''r1'', Some \<lparr>receipt = ex_receipt ''r1'' (SuccessReceiptId ''r2'') [''r2''],
                                          block_height = 100, block_timestamp_nanosec = ''17''\<rparr>),
                          (''r2'', None)]\<rparr> \<and>
   filter is_onTransaction (snd (snd (receipt_step watcher
       (ex_message 100 [] [ex_receipt ''r1'' (SuccessReceiptId ''r2'') [''r2'']])
       (in_range_options 100) (ex_receipt ''r1'' (SuccessReceiptId ''r2'') [''r2'']) registered_state []))) = []"
proof -
  let ?inc = "\<lparr>it_transaction = ex_tx ''T'' [''r1''], it_receipts = [(''r1'', None)]\<rparr>"
  let ?m1 = "ex_message 100 [] [ex_receipt ''r1'' (SuccessValue None) []]"
  let ?rc1 = "ex_receipt ''r1'' (SuccessValue None) []"
  let ?m2 = "ex_message 100 [] [ex_receipt ''r1'' (SuccessReceiptId ''r2'') [''r2'']]"
  let ?rc2 = "ex_receipt ''r1'' (SuccessReceiptId ''r2'') [''r2'']"
  let ?rs1 = "[(''r1'', Some \<lparr>receipt = ?rc1, block_height = 100, block_timestamp_nanosec = ''17''\<rparr>)]"
  let ?rs2 = "[(''r1'', Some \<lparr>receipt = ?rc2, block_height = 100, block_timestamp_nanosec = ''17''\<rparr>),
               (''r2'', None)]"
  have inv: "open_inv registered_state"
    by (simp add: open_inv_def open_ok_def registered_state_def)
  have own: "Map_get (receiptToTx registered_state) (r_receipt_id ?rc1) = Some ''T''"
    "Map_get (receiptToTx registered_state) (r_receipt_id ?rc2) = Some ''T''"
    "Map_get (pendingTransactions registered_state) ''T'' = Some ?inc"
    "preprocess (in_range_options 100)" "preprocess_new_transactions (in_range_options 100)"
    "handle_preprocessed_transactions_by_indexer (in_range_options 100)"
    by (simp_all add: registered_state_def ex_receipt_def in_range_options_def)
  have res: "hook_resolves (ix_onReceipt watcher) a []" for a
    by (simp add: hook_resolves_def watcher_def no_hooks_def)
  have hk: "ix_onTransaction watcher \<noteq> None"
    by (simp add: watcher_def no_hooks_def)
  have rs1: "?rs1 = snd (follow_on ''T'' (r_receipt_ids ?rc1)
            (receiptToTx registered_state, Map_set (r_receipt_id ?rc1) (Some (make_processed ?rc1 ?m1)) (it_receipts ?inc)))"
    by code_simp
  have rs2: "?rs2 = snd (follow_on ''T'' (r_receipt_ids ?rc2)
            (receiptToTx registered_state, Map_set (r_receipt_id ?rc2) (Some (make_processed ?rc2 ?m2)) (it_receipts ?inc)))"
    by code_simp
  have z: "fold (\<lambda>r. Map_set r None) (tx_receipt_ids (ex_tx ''Z'' [])) [] = []" "tx_hash (ex_tx ''Z'' []) = ''Z''"
    by (simp_all add: ex_tx_def)
  from open_transaction_lifecycle [where s = registered_state and ix = watcher and m = ?m1
      and opts = "in_range_options 100" and tr = "[]" and tx = "ex_tx ''Z'' []" and rc = ?rc1
      and txId = "''T''" and inc = ?inc and ?rs2.0 = ?rs1]
    open_transaction_lifecycle [where s = registered_state and ix = watcher and m = ?m2
      and opts = "in_range_options 100" and tr = "[]" and tx = "ex_tx ''Z'' []" and rc = ?rc2
      and txId = "''T''" and inc = ?inc and ?rs2.0 = ?rs2]
  show ?thesis
    unfolding rs1[symmetric] rs2[symmetric]
    by (simp add: inv own res hk z rs1[symmetric] rs2[symmetric])
qed


section \<open>The two state machines agree\<close>

lemma forget_with [simp]: "forget_counter (with_counter n s) = s"
  by (simp add: forget_counter_def with_counter_def)

lemma with_forget [simp]: "with_counter (blocksReceived s) (forget_counter s) = s"
  by (simp add: forget_counter_def with_counter_def)

lemma forget_counter_update [simp]: "forget_counter (s\<lparr>blocksReceived := n\<rparr>) = forget_counter s"
  by (simp add: forget_counter_def)

lemma blocksReceived_with [simp]: "blocksReceived (with_counter n s) = n"
  by (simp add: with_counter_def)

lemma owc_simp [simp]: "outcome_with_counter n (e, s, tr) = (e, with_counter n s, tr)"
  by (simp add: outcome_with_counter_def)

lemma andThen_with_counter:
  "andThen (outcome_with_counter n r) (\<lambda>s tr. outcome_with_counter n (f (forget_counter s) tr)) =
   outcome_with_counter n (andThen r f)"
  by (cases r) (auto simp: andThen_def split: option.splits)

text \<open>The methods of the objects the two machines hand to the hooks agree.\<close>

lemma IS_isSuccessful_eq: "IS_isSuccessful = isSuccessful"
  by (intro ext) simp

lemma IS_allReceiptsSuccessful_eq: "IS_allReceiptsSuccessful = allReceiptsSuccessful"
  by (intro ext) (simp add: IS_allReceiptsSuccessful_def allReceiptsSuccessful_def)














section \<open>The fetch pipelines deliver in order\<close>

lemma handed_push:
  "qwait q \<Longrightarrow> handed (queue_push v q) = (if q_done q then handed q else handed q @ [v])"
  by (auto simp: handed_def queue_push_def qwait_def)

lemma handed_next [simp]: "handed (queue_next q) = handed q"
  by (auto simp: handed_def queue_next_def split: list.splits)

lemma handed_close [simp]: "handed (queue_close q) = handed q"
  by (simp add: handed_def queue_close_def)

lemma qwait_push: "qwait q \<Longrightarrow> qwait (queue_push v q)"
  by (auto simp: qwait_def queue_push_def)

lemma qwait_next: "qwait q \<Longrightarrow> qwait (queue_next q)"
  by (auto simp: qwait_def queue_next_def split: list.splits)

lemma qwait_close [simp]: "qwait (queue_close q)"
  by (simp add: qwait_def queue_close_def)

lemma q_done_push [simp]: "q_done (queue_push v q) = q_done q"
  by (simp add: queue_push_def)

lemma q_done_next [simp]: "q_done (queue_next q) = q_done q"
  by (auto simp: queue_next_def split: list.splits)

lemma q_done_close [simp]: "q_done (queue_close q)"
  by (simp add: queue_close_def)

lemma present_empty [simp]: "present src lo lo = []"
  by (simp add: present_def List.map_filter_simps)

lemma present_snoc:
  "lo \<le> hi \<Longrightarrow> present src lo (hi + 1) =
     present src lo hi @ (case src hi of None \<Rightarrow> [] | Some m \<Rightarrow> [m])"
proof -
  assume "lo \<le> hi"
  then have "[lo..hi + 1 - 1] = [lo..hi - 1] @ [hi]"
    using upto_rec2[of lo hi] by simp
  then show ?thesis
    by (simp add: present_def List.map_filter_def split: option.splits)
qed

lemma drain_unfold:
  "drain p = (if Map_has (results p) (nextToEmit p) then drain (drain1 p) else p)"
  by (subst drain.simps) (simp add: drain1_def Let_def)

lemma keys_delete: "fst ` set (Map_delete k al) = fst ` set al - {k}"
  by (auto simp: AList.delete_eq)

lemma drain1_fields:
  "awaiting (drain1 p) = awaiting p" "scheduled (drain1 p) = scheduled p"
  "active (drain1 p) = active p" "attempts (drain1 p) = attempts p"
  "q_done (queue (drain1 p)) = q_done (queue p)"
  "nextToEmit (drain1 p) = nextToEmit p + 1"
  "results (drain1 p) = Map_delete (nextToEmit p) (results p)"
  by (simp_all add: drain1_def Let_def split: option.splits)

lemma drain1_queue:
  "queue (drain1 p) =
     (case the (Map_get (results p) (nextToEmit p)) of
        Some m \<Rightarrow> queue_push m (queue p) | None \<Rightarrow> queue p)"
  by (simp add: drain1_def Let_def split: option.splits)

lemma drain1_pinv0:
  assumes inv: "pinv0 first end_h W src p" and has: "Map_has (results p) (nextToEmit p)"
  shows "pinv0 first end_h W src (drain1 p)"
proof -
  let ?n = "nextToEmit p"
  from has obtain msg where msg: "Map_get (results p) ?n = Some msg" by auto
  then have mem: "(?n, msg) \<in> set (results p)" by (rule map_of_SomeD)
  with inv have src: "msg = src ?n" by (auto simp: pinv0_def list_all_iff)
  from mem have key: "?n \<in> fst ` set (results p)" by force
  with inv have notaw: "?n \<notin> set (awaiting p)" and lt: "?n < scheduled p"
    by (auto simp: pinv0_def)
  from mem inv have nd: "\<not> q_done (queue p)" by (auto simp: pinv0_def)
  from inv have f: "first \<le> ?n" by (simp add: pinv0_def)
  from inv have qw: "qwait (queue p)" by (simp add: pinv0_def)
  have q: "queue (drain1 p) = (case src ?n of Some m \<Rightarrow> queue_push m (queue p) | None \<Rightarrow> queue p)"
    by (simp add: drain1_queue msg src)
  have h: "handed (queue (drain1 p)) = present src first (?n + 1)"
    using inv nd qw f by (simp add: q present_snoc handed_push pinv0_def split: option.splits)
  have w: "qwait (queue (drain1 p))"
    using qw by (simp add: q qwait_push split: option.splits)
  from inv have U: "set (awaiting p) \<union> fst ` set (results p) = {?n..<scheduled p}"
    by (simp add: pinv0_def)
  have mem_iff: "(x \<in> set (awaiting p) \<or> x \<in> fst ` set (results p)) = (?n \<le> x \<and> x < scheduled p)" for x
    using U[unfolded set_eq_iff] by simp
  have u: "set (awaiting p) \<union> fst ` set (Map_delete ?n (results p)) = {?n + 1..<scheduled p}"
  proof (rule set_eqI)
    fix x
    from mem_iff[of x] notaw
    show "(x \<in> set (awaiting p) \<union> fst ` set (Map_delete ?n (results p))) = (x \<in> {?n + 1..<scheduled p})"
      unfolding keys_delete by (cases "x = ?n") auto
  qed
  have d: "distinct (map fst (Map_delete ?n (results p)))"
    using inv by (simp add: pinv0_def distinct_delete)
  have i: "set (awaiting p) \<inter> fst ` set (Map_delete ?n (results p)) = {}"
    using inv by (auto simp: pinv0_def keys_delete)
  have l: "list_all (\<lambda>(h, m). m = src h) (Map_delete ?n (results p))"
    using inv by (auto simp: pinv0_def list_all_iff AList.delete_eq)
  show ?thesis
    unfolding pinv0_def drain1_fields
    using inv lt f h w u d i l nd by (simp add: pinv0_def)
qed

text \<open>The drain loop keeps the invariant and stops at a height that is not buffered.\<close>

lemma drain_pinv0:
  "pinv0 first end_h W src p \<Longrightarrow>
   pinv0 first end_h W src (drain p) \<and> \<not> Map_has (results (drain p)) (nextToEmit (drain p)) \<and>
   awaiting (drain p) = awaiting p \<and> scheduled (drain p) = scheduled p \<and>
   active (drain p) = active p \<and> attempts (drain p) = attempts p \<and>
   q_done (queue (drain p)) = q_done (queue p)"
proof (induction p rule: drain.induct)
  case (1 p)
  show ?case
  proof (cases "Map_has (results p) (nextToEmit p)")
    case False
    then have "drain p = p" by (subst drain_unfold) simp
    with 1 False show ?thesis by simp
  next
    case True
    have eq: "drain p = drain (drain1 p)" using True by (subst drain_unfold) simp
    have IH: "pinv0 first end_h W src (drain1 p) \<Longrightarrow>
      pinv0 first end_h W src (drain (drain1 p)) \<and>
      \<not> Map_has (results (drain (drain1 p))) (nextToEmit (drain (drain1 p))) \<and>
      awaiting (drain (drain1 p)) = awaiting (drain1 p) \<and> scheduled (drain (drain1 p)) = scheduled (drain1 p) \<and>
      active (drain (drain1 p)) = active (drain1 p) \<and> attempts (drain (drain1 p)) = attempts (drain1 p) \<and>
      q_done (queue (drain (drain1 p))) = q_done (queue (drain1 p))"
      using "1.IH"[OF True refl refl refl] by (simp add: drain1_def Let_def)
    from IH[OF drain1_pinv0[OF "1.prems" True]] show ?thesis
      unfolding eq by (simp add: drain1_fields)
  qed
qed

lemma on_resolve_unfold:
  "on_resolve src end_h h p =
     (let p3 = drain (resolve_mid src h p)
      in if scheduled p3 < end_h then
           scheduleOne (scheduled p3) (p3\<lparr>scheduled := scheduled p3 + 1\<rparr>)
         else if active p3 = 0 \<and> results p3 = [] then p3\<lparr>queue := queue_close (queue p3)\<rparr>
         else p3)"
  by (simp add: on_resolve_def resolve_mid_def Let_def)

lemma resolve_mid_pinv0:
  assumes inv: "pinv0 first end_h W src p" and h: "h \<in> set (awaiting p)"
  shows "pinv0 first end_h W src (resolve_mid src h p)"
    and "length (awaiting (resolve_mid src h p)) < W"
    and "\<not> q_done (queue (resolve_mid src h p))"
    and "scheduled (resolve_mid src h p) = scheduled p"
proof -
  let ?q = "resolve_mid src h p"
  from inv have da: "distinct (awaiting p)" by (simp add: pinv0_def)
  from inv h have nk: "h \<notin> fst ` set (results p)" by (auto simp: pinv0_def)
  have aw: "set (awaiting ?q) = set (awaiting p) - {h}" "distinct (awaiting ?q)"
    using da by (simp_all add: resolve_mid_def distinct_removeAll)
  from h have pos: "length (awaiting p) \<ge> 1"
    by (cases "awaiting p") auto
  have len: "length (awaiting ?q) = length (awaiting p) - 1"
    using da h by (simp add: resolve_mid_def distinct_remove1_removeAll[symmetric] length_remove1)
  have keys: "fst ` set (results ?q) = insert h (fst ` set (results p))"
    by (simp add: resolve_mid_def dom_update)
  have dk: "distinct (map fst (results ?q))"
    using inv by (simp add: resolve_mid_def pinv0_def distinct_update)
  have la: "list_all (\<lambda>(h, m). m = src h) (results ?q)"
    using inv by (simp add: resolve_mid_def pinv0_def list_all_update)
  from inv h show nd: "\<not> q_done (queue ?q)"
    by (auto simp: resolve_mid_def pinv0_def)
  from inv have U: "set (awaiting p) \<union> fst ` set (results p) = {nextToEmit p..<scheduled p}"
    by (simp add: pinv0_def)
  have u: "set (awaiting ?q) \<union> fst ` set (results ?q) = {nextToEmit p..<scheduled p}"
    unfolding aw keys using U h by auto
  have i: "set (awaiting ?q) \<inter> fst ` set (results ?q) = {}"
    unfolding aw keys using inv by (auto simp: pinv0_def)
  have rest: "nextToEmit ?q = nextToEmit p" "scheduled ?q = scheduled p" "attempts ?q = attempts p"
    "queue ?q = queue p" "active ?q = active p - 1"
    by (simp_all add: resolve_mid_def)
  from inv have "length (awaiting p) \<le> W" by (simp add: pinv0_def)
  with len pos show lw: "length (awaiting ?q) < W" by arith
  from inv len pos have act: "active p - 1 = int (length (awaiting ?q))"
    by (simp add: pinv0_def)
  show "scheduled ?q = scheduled p" by (simp add: rest)
  show "pinv0 first end_h W src ?q"
    unfolding pinv0_def rest u i
    using inv aw dk la lw act nd by (simp add: pinv0_def rest)
qed

lemma has_key_iff: "Map_has al k = (k \<in> fst ` set al)"
  by (simp add: map_of_eq_None_iff)

lemma pinv0_fields:
  assumes "pinv0 first end_h W src p"
    and "nextToEmit q = nextToEmit p" and "results q = results p" and "active q = active p"
    and "scheduled q = scheduled p" and "awaiting q = awaiting p"
    and "set (attempts q) = set (attempts p)"
    and "handed (queue q) = handed (queue p)" and "qwait (queue q)"
    and "q_done (queue q) \<longrightarrow> results p = [] \<and> awaiting p = []"
  shows "pinv0 first end_h W src q"
  using assms(1,8,9,10) unfolding pinv0_def assms(2-7) by simp

lemma schedule_next_pinv0:
  assumes p3: "pinv0 first end_h W src p" and lt: "scheduled p < end_h"
    and lw: "length (awaiting p) < W" and nd: "\<not> q_done (queue p)"
  shows "pinv0 first end_h W src (scheduleOne (scheduled p) (p\<lparr>scheduled := scheduled p + 1\<rparr>))"
proof -
  let ?n = "nextToEmit p" and ?s = "scheduled p"
  let ?r = "scheduleOne ?s (p\<lparr>scheduled := ?s + 1\<rparr>)"
  from p3 have U: "set (awaiting p) \<union> fst ` set (results p) = {?n..<?s}"
    and facts: "first \<le> ?n" "?n \<le> ?s" "?s \<le> max first end_h"
      "distinct (awaiting p)" "set (awaiting p) \<inter> fst ` set (results p) = {}"
      "set (attempts p) = {first..<?s}" "active p = int (length (awaiting p))"
      "distinct (map fst (results p))" "list_all (\<lambda>(h, m). m = src h) (results p)"
      "handed (queue p) = present src first ?n" "qwait (queue p)"
    by (simp_all add: pinv0_def)
  have mem_iff: "(x \<in> set (awaiting p) \<or> x \<in> fst ` set (results p)) = (?n \<le> x \<and> x < ?s)" for x
    using U[unfolded set_eq_iff] by simp
  have flds: "awaiting ?r = awaiting p @ [?s]" "scheduled ?r = ?s + 1" "attempts ?r = attempts p @ [?s]"
    "active ?r = active p + 1" "results ?r = results p" "nextToEmit ?r = ?n" "queue ?r = queue p"
    by (simp_all add: scheduleOne_def)
  from mem_iff[of ?s] have snew: "?s \<notin> set (awaiting p)" "?s \<notin> fst ` set (results p)"
    by auto
  have u: "set (awaiting p @ [?s]) \<union> fst ` set (results p) = {?n..<?s + 1}"
  proof (rule set_eqI)
    fix x
    from mem_iff[of x] facts(2)
    show "(x \<in> set (awaiting p @ [?s]) \<union> fst ` set (results p)) = (x \<in> {?n..<?s + 1})"
      by (cases "x = ?s") auto
  qed
  have a: "set (attempts p @ [?s]) = {first..<?s + 1}"
    using facts(1,2,6) by auto
  have i: "set (awaiting p @ [?s]) \<inter> fst ` set (results p) = {}"
    using facts(5) snew by auto
  have d: "distinct (awaiting p @ [?s])"
    using facts(4) snew by simp
  have b: "?s + 1 \<le> max first end_h" "?n \<le> ?s + 1"
    using lt facts(2) by simp_all
  have c: "active p + 1 = int (length (awaiting p @ [?s]))" "length (awaiting p @ [?s]) \<le> W"
    using facts(7) lw by simp_all
  show ?thesis
    unfolding pinv0_def flds
    by (intro conjI facts u a i d b c) (simp add: nd)
qed

text \<open>A resolved call keeps the invariant of the parallel pipeline.\<close>

lemma on_resolve_pinv:
  assumes inv: "pinv first end_h W src p" and h: "h \<in> set (awaiting p)"
  shows "pinv first end_h W src (on_resolve src end_h h p)"
proof -
  let ?q = "resolve_mid src h p"
  let ?p3 = "drain ?q"
  from inv have inv0: "pinv0 first end_h W src p" by (simp add: pinv_def)
  note mid = resolve_mid_pinv0[OF inv0 h]
  from drain_pinv0[OF mid(1)] mid(2,3,4)
  have p3: "pinv0 first end_h W src ?p3" and nh: "\<not> Map_has (results ?p3) (nextToEmit ?p3)"
    and lw: "length (awaiting ?p3) < W" and nd: "\<not> q_done (queue ?p3)"
    by simp_all
  let ?n = "nextToEmit ?p3" and ?s = "scheduled ?p3"
  from p3 have U: "set (awaiting ?p3) \<union> fst ` set (results ?p3) = {?n..<?s}"
    and facts: "first \<le> ?n" "?n \<le> ?s" "?s \<le> max first end_h"
      "distinct (awaiting ?p3)" "set (awaiting ?p3) \<inter> fst ` set (results ?p3) = {}"
      "set (attempts ?p3) = {first..<?s}" "active ?p3 = int (length (awaiting ?p3))"
    by (simp_all add: pinv0_def)
  have mem_iff: "(x \<in> set (awaiting ?p3) \<or> x \<in> fst ` set (results ?p3)) = (?n \<le> x \<and> x < ?s)" for x
    using U[unfolded set_eq_iff] by simp
  show ?thesis
  proof (cases "?s < end_h")
    case True
    let ?r = "scheduleOne ?s (?p3\<lparr>scheduled := ?s + 1\<rparr>)"
    have r: "on_resolve src end_h h p = ?r"
      using True by (simp add: on_resolve_unfold Let_def)
    have flds: "awaiting ?r = awaiting ?p3 @ [?s]" "results ?r = results ?p3" "nextToEmit ?r = ?n"
      by (simp_all add: scheduleOne_def)
    have "pinv0 first end_h W src ?r"
      using p3 True lw nd by (rule schedule_next_pinv0)
    then show ?thesis
      unfolding r pinv_def using nh by (simp add: flds)
  next
    case False
    show ?thesis
    proof (cases "active ?p3 = 0 \<and> results ?p3 = []")
      case True
      let ?r = "?p3\<lparr>queue := queue_close (queue ?p3)\<rparr>"
      have r: "on_resolve src end_h h p = ?r"
        using True False by (simp add: on_resolve_unfold Let_def)
      from True facts(7) have e: "awaiting ?p3 = []" "results ?p3 = []" by simp_all
      have "pinv0 first end_h W src ?r"
        using p3 by (rule pinv0_fields) (simp_all add: e)
      moreover from False facts(3) have "first < end_h \<longrightarrow> ?s = end_h" by auto
      ultimately show ?thesis
        unfolding r pinv_def using nh by simp
    next
      case ne: False
      have r: "on_resolve src end_h h p = ?p3"
        using ne False by (auto simp: on_resolve_unfold Let_def)
      have "awaiting ?p3 \<noteq> []"
      proof
        assume e: "awaiting ?p3 = []"
        with facts(7) ne have "results ?p3 \<noteq> []" by simp
        then obtain k where k: "k \<in> fst ` set (results ?p3)"
          by (cases "results ?p3") auto
        with mem_iff[of k] have "?n \<le> ?n \<and> ?n < ?s" by auto
        with mem_iff[of ?n] e have "?n \<in> fst ` set (results ?p3)" by simp
        with nh show False by (simp add: map_of_eq_None_iff)
      qed
      with p3 nh show ?thesis unfolding r pinv_def by simp
    qed
  qed
qed

lemma on_reject_pinv:
  assumes inv: "pinv first end_h W src p" and h: "h \<in> set (awaiting p)"
  shows "pinv first end_h W src (on_reject h p)"
proof -
  from inv have U: "set (awaiting p) \<union> fst ` set (results p) = {nextToEmit p..<scheduled p}"
    and f: "first \<le> nextToEmit p" and a: "set (attempts p) = {first..<scheduled p}"
    by (simp_all add: pinv_def pinv0_def)
  from U h have "nextToEmit p \<le> h \<and> h < scheduled p" by auto
  with f a have s: "h \<in> set (attempts p)" by auto
  from inv have i0: "pinv0 first end_h W src p" by (simp add: pinv_def)
  then have qw: "qwait (queue p)" and qd: "q_done (queue p) \<longrightarrow> results p = [] \<and> awaiting p = []"
    by (simp_all add: pinv0_def)
  from i0 have "pinv0 first end_h W src (on_reject h p)"
    by (rule pinv0_fields) (simp_all add: on_reject_def s insert_absorb qw qd)
  with inv show ?thesis
    by (simp add: pinv_def on_reject_def)
qed

lemma pull_pinv:
  assumes inv: "pinv first end_h W src p"
  shows "pinv first end_h W src (p\<lparr>queue := queue_next (queue p)\<rparr>)"
proof -
  from inv have i0: "pinv0 first end_h W src p" by (simp add: pinv_def)
  then have qw: "qwait (queue p)" and qd: "q_done (queue p) \<longrightarrow> results p = [] \<and> awaiting p = []"
    by (simp_all add: pinv0_def)
  from i0 have "pinv0 first end_h W src (p\<lparr>queue := queue_next (queue p)\<rparr>)"
    by (rule pinv0_fields) (simp_all add: qwait_next qw qd)
  with inv show ?thesis by (simp add: pinv_def)
qed

lemma pipeline_step_pinv:
  "pinv first end_h W src p \<Longrightarrow> pinv first end_h W src (pipeline_step src end_h ev p)"
  by (cases ev) (simp_all add: pipeline_step_def on_resolve_pinv on_reject_pinv pull_pinv)

lemma fold_pipeline_step_pinv:
  "pinv first end_h W src p \<Longrightarrow> pinv first end_h W src (fold (pipeline_step src end_h) schedule p)"
  by (induction schedule arbitrary: p) (simp_all add: pipeline_step_pinv)

lemma prime_pinv0:
  assumes "pinv0 first end_h W src p" and "length (awaiting p) + i \<le> W"
    and "results p = []" and "\<not> q_done (queue p)"
  shows "pinv0 first end_h W src (prime i end_h p) \<and> results (prime i end_h p) = [] \<and>
         \<not> q_done (queue (prime i end_h p)) \<and>
         (awaiting p \<noteq> [] \<or> (i \<ge> 1 \<and> scheduled p < end_h) \<longrightarrow> awaiting (prime i end_h p) \<noteq> [])"
  using assms
proof (induction i arbitrary: p)
  case 0
  then show ?case by simp
next
  case (Suc i)
  show ?case
  proof (cases "scheduled p < end_h")
    case False
    with Suc.prems show ?thesis by simp
  next
    case True
    let ?r = "scheduleOne (scheduled p) (p\<lparr>scheduled := scheduled p + 1\<rparr>)"
    from Suc.prems(2) have lw: "length (awaiting p) < W" by simp
    have r0: "pinv0 first end_h W src ?r"
      using Suc.prems(1) True lw Suc.prems(4) by (rule schedule_next_pinv0)
    have r1: "length (awaiting ?r) + i \<le> W" "results ?r = []" "\<not> q_done (queue ?r)" "awaiting ?r \<noteq> []"
      using Suc.prems by (simp_all add: scheduleOne_def)
    from Suc.IH[OF r0 r1(1,2,3)] r1(4) True show ?thesis by simp
  qed
qed

lemma parallel_stream_pinv:
  "pinv first (case lastExclusive of None \<Rightarrow> MAX_SAFE_INTEGER | Some l \<Rightarrow> l) W src
     (parallel_stream W first lastExclusive)"
proof -
  let ?e = "case lastExclusive of None \<Rightarrow> MAX_SAFE_INTEGER | Some l \<Rightarrow> l"
  let ?p0 = "\<lparr>nextToEmit = first, results = [], active = 0, scheduled = first,
            awaiting = [], attempts = [], queue = new_AsyncQueue\<rparr>"
  have "pinv0 first ?e W src ?p0"
    by (simp add: pinv0_def handed_def qwait_def new_AsyncQueue_def)
  from prime_pinv0[OF this, of W] show ?thesis
    by (auto simp: pinv_def parallel_stream_def Let_def new_AsyncQueue_def)
qed

lemma parallel_run_pinv:
  "pinv first (case lastExclusive of None \<Rightarrow> MAX_SAFE_INTEGER | Some l \<Rightarrow> l) W src
     (parallel_run src W first lastExclusive schedule)"
  unfolding parallel_run_def by (rule fold_pipeline_step_pinv) (rule parallel_stream_pinv)

lemma present_heights:
  "source_faithful src \<Longrightarrow> map height (present src lo hi) = filter (\<lambda>h. src h \<noteq> None) [lo..hi - 1]"
  unfolding present_def List.map_filter_def source_faithful_def
  by (induction "[lo..hi - 1]" arbitrary: lo) (auto simp: comp_def intro!: map_idI filter_cong)

lemma present_split:
  "lo \<le> mid \<Longrightarrow> mid \<le> hi \<Longrightarrow> present src lo hi = present src lo mid @ present src mid hi"
proof -
  assume a: "lo \<le> mid" "mid \<le> hi"
  show ?thesis
  proof (cases "mid = hi")
    case True
    then show ?thesis by simp
  next
    case False
    with a have "[lo..hi - 1] = [lo..mid - 1] @ [mid..hi - 1]"
      using upto_split1[of lo mid "hi - 1"] by simp
    then show ?thesis by (simp add: present_def List.map_filter_def)
  qed
qed

lemma present_void: "hi \<le> lo \<Longrightarrow> present src lo hi = []"
  by (simp add: present_def List.map_filter_simps)

lemma present_sorted:
  "source_faithful src \<Longrightarrow> sorted_wrt (<) (map height (present src lo hi))"
  by (simp add: present_heights sorted_wrt_filter strict_sorted_iff)

lemma present_absent:
  assumes "source_faithful src" and "src h = None"
  shows "h \<notin> height ` set (present src lo hi)"
proof -
  have "set (map height (present src lo hi)) = {k \<in> set [lo..hi - 1]. src k \<noteq> None}"
    by (simp add: present_heights[OF assms(1)])
  with assms(2) show ?thesis by auto
qed

lemma serial_enter_sinv:
  assumes "first \<le> h" and "h \<le> max first end_h"
    and "handed (sp_queue s) = present src first h" and "qwait (sp_queue s)"
    and "\<not> q_done (sp_queue s)" and "\<not> sp_finished s"
    and "set (sp_attempts s) = {first..<h}"
  shows "sinv first end_h src (serial_enter end_h h s)"
  using assms by (auto simp: sinv_def serial_enter_def)

lemma serial_stream_sinv:
  "sinv first (case lastExclusive of None \<Rightarrow> MAX_SAFE_INTEGER | Some l \<Rightarrow> l) src
     (serial_stream first lastExclusive)"
  unfolding serial_stream_def
  by (rule serial_enter_sinv) (simp_all add: handed_def qwait_def new_AsyncQueue_def)

lemma serial_step_sinv:
  assumes inv: "sinv first end_h src s"
  shows "sinv first end_h src (serial_step src end_h ev s)"
proof (cases ev)
  case (Resolve h)
  show ?thesis
  proof (cases "\<not> sp_finished s \<and> h = sp_h s")
    case False
    with inv Resolve show ?thesis by (auto simp: serial_step_def)
  next
    case True
    let ?s1 = "case src h of Some m \<Rightarrow> s\<lparr>sp_queue := queue_push m (sp_queue s)\<rparr> | None \<Rightarrow> s"
    from inv True have facts: "first \<le> h" "h < end_h" "\<not> q_done (sp_queue s)" "qwait (sp_queue s)"
        "handed (sp_queue s) = present src first h" "set (sp_attempts s) = {first..<h + 1}"
      by (auto simp: sinv_def)
    have "sinv first end_h src (serial_enter end_h (h + 1) ?s1)"
    proof (rule serial_enter_sinv)
      show "handed (sp_queue ?s1) = present src first (h + 1)"
        using facts by (simp add: present_snoc handed_push split: option.splits)
      show "qwait (sp_queue ?s1)"
        using facts by (simp add: qwait_push split: option.splits)
      show "\<not> q_done (sp_queue ?s1)" "\<not> sp_finished ?s1" "set (sp_attempts ?s1) = {first..<h + 1}"
        using facts True by (simp_all split: option.splits)
    qed (use facts in auto)
    with True Resolve show ?thesis by (simp add: serial_step_def)
  qed
next
  case (Reject h)
  with inv show ?thesis by (auto simp: serial_step_def sinv_def)
next
  case Pull
  with inv show ?thesis by (simp add: serial_step_def sinv_def qwait_next)
qed

lemma serial_run_sinv:
  "sinv first (case lastExclusive of None \<Rightarrow> MAX_SAFE_INTEGER | Some l \<Rightarrow> l) src
     (serial_run src first lastExclusive schedule)"
proof -
  have "sinv first end_h src s \<Longrightarrow> sinv first end_h src (fold (serial_step src end_h) schedule s)"
    for end_h s
    by (induction schedule arbitrary: s) (simp_all add: serial_step_sinv)
  then show ?thesis
    unfolding serial_run_def using serial_stream_sinv by blast
qed

text \<open>
  Claim C2. For any number of workers and whatever the order in which the calls
  of \<open>getMessage\<close> resolve or reject (the schedule), what the pipeline has handed to
  the queue, in order, is exactly the list of messages present at the heights from
  \<open>first\<close> up to \<open>nextToEmit\<close>, in height order; what the consumer has received is
  a prefix of the messages present in the window. With a source that answers each
  height with a message of that height, the heights delivered are strictly
  increasing: none is repeated, none overtakes a lower present one.
\<close>

theorem ordered_delivery:
  assumes "source_faithful src"
    and "p = parallel_run src W first lastExclusive schedule"
    and "end_h = (case lastExclusive of None \<Rightarrow> MAX_SAFE_INTEGER | Some l \<Rightarrow> l)"
  shows "q_yielded (queue p) @ q_values (queue p) = present src first (nextToEmit p) \<and>
         (\<exists>rest. present src first end_h = q_yielded (queue p) @ rest) \<and>
         sorted_wrt (<) (map height (q_yielded (queue p))) \<and>
         distinct (map height (q_yielded (queue p)))"
proof -
  have inv: "pinv first end_h W src p"
    unfolding assms(2,3) by (rule parallel_run_pinv)
  then have h: "handed (queue p) = present src first (nextToEmit p)"
    and b: "first \<le> nextToEmit p" "nextToEmit p \<le> max first end_h"
    by (simp_all add: pinv_def pinv0_def)
  from h have y: "q_yielded (queue p) @ q_values (queue p) = present src first (nextToEmit p)"
    by (simp add: handed_def)
  have "present src first end_h = present src first (nextToEmit p) @ present src (nextToEmit p) end_h"
  proof (cases "first \<le> end_h")
    case True
    with b show ?thesis by (intro present_split) simp_all
  next
    case False
    with b have "nextToEmit p = first" by simp
    then show ?thesis by simp
  qed
  with y have pre: "present src first end_h =
      q_yielded (queue p) @ (q_values (queue p) @ present src (nextToEmit p) end_h)"
    by simp
  from present_sorted[OF assms(1), of first "nextToEmit p"]
  have s: "sorted_wrt (<) (map height (q_yielded (queue p)))"
    unfolding y[symmetric] by (simp add: sorted_wrt_append)
  then have "distinct (map height (q_yielded (queue p)))"
    by (simp add: strict_sorted_iff)
  with y pre s show ?thesis by blast
qed

text \<open>
  Claim C7. For both streamers and every schedule: no message of an absent height
  is delivered; every height below \<open>scheduled\<close> was passed to \<open>getMessage\<close>; and
  once no call is outstanding (the parallel streamer, with a worker and a
  non-empty window) or the loop has finished (the serial streamer), the queue is
  closed, every height of the window was attempted and exactly the present
  messages of the window were handed over, so absent heights neither fail nor
  stall the pipeline. The witness shows a delivery that jumps from \<open>100\<close> to
  \<open>102\<close>.
\<close>

theorem absent_heights_skipped:
  assumes "p = parallel_run src W first lastExclusive schedule"
    and "s = serial_run src first lastExclusive schedule'"
    and "end_h = (case lastExclusive of None \<Rightarrow> MAX_SAFE_INTEGER | Some l \<Rightarrow> l)"
  shows "(source_faithful src \<and> src h = None \<longrightarrow>
            h \<notin> height ` set (q_yielded (queue p)) \<and> h \<notin> height ` set (q_yielded (sp_queue s))) \<and>
         set (attempts p) = {first..<scheduled p} \<and>
         (W \<ge> 1 \<and> first < end_h \<and> awaiting p = [] \<longrightarrow>
            q_done (queue p) \<and> nextToEmit p = end_h \<and> set (attempts p) = {first..<end_h} \<and>
            q_yielded (queue p) @ q_values (queue p) = present src first end_h) \<and>
         (sp_finished s \<longrightarrow>
            q_done (sp_queue s) \<and> set (sp_attempts s) = {first..<end_h} \<and>
            q_yielded (sp_queue s) @ q_values (sp_queue s) = present src first end_h)"
proof -
  have inv: "pinv first end_h W src p"
    unfolding assms(1,3) by (rule parallel_run_pinv)
  have sin: "sinv first end_h src s"
    unfolding assms(2,3) by (rule serial_run_sinv)
  from inv have hp: "q_yielded (queue p) @ q_values (queue p) = present src first (nextToEmit p)"
    and att: "set (attempts p) = {first..<scheduled p}"
    and U: "set (awaiting p) \<union> fst ` set (results p) = {nextToEmit p..<scheduled p}"
    and nh: "nextToEmit p \<notin> fst ` set (results p)"
    and le: "nextToEmit p \<le> scheduled p"
    and live: "W \<ge> 1 \<and> first < end_h \<and> awaiting p = [] \<longrightarrow> q_done (queue p) \<and> scheduled p = end_h"
    and dn: "q_done (queue p) \<longrightarrow> results p = []"
    by (simp_all add: pinv_def pinv0_def handed_def map_of_eq_None_iff)
  from sin have hs: "q_yielded (sp_queue s) @ q_values (sp_queue s) = present src first (sp_h s)"
    and sf: "sp_finished s \<longrightarrow> q_done (sp_queue s) \<and> end_h \<le> sp_h s \<and> set (sp_attempts s) = {first..<sp_h s}"
    and sb: "first \<le> sp_h s" "sp_h s \<le> max first end_h"
    by (simp_all add: sinv_def handed_def)
  have a: "h \<notin> height ` set (q_yielded (queue p)) \<and> h \<notin> height ` set (q_yielded (sp_queue s))"
    if "source_faithful src" "src h = None"
  proof -
    from present_absent[OF that, of first "nextToEmit p"] present_absent[OF that, of first "sp_h s"]
    show ?thesis unfolding hp[symmetric] hs[symmetric] by auto
  qed
  have b: "q_done (queue p) \<and> nextToEmit p = end_h \<and> set (attempts p) = {first..<end_h} \<and>
            q_yielded (queue p) @ q_values (queue p) = present src first end_h"
    if "W \<ge> 1 \<and> first < end_h \<and> awaiting p = []"
  proof -
    from that live have d: "q_done (queue p)" "scheduled p = end_h" by simp_all
    with dn U that have "{nextToEmit p..<scheduled p} = {}" by simp
    with le have "nextToEmit p = scheduled p" by simp
    with d att hp show ?thesis by simp
  qed
  have c: "q_done (sp_queue s) \<and> set (sp_attempts s) = {first..<end_h} \<and>
            q_yielded (sp_queue s) @ q_values (sp_queue s) = present src first end_h"
    if "sp_finished s"
  proof (cases "first \<le> end_h")
    case True
    with sf sb that have "sp_h s = end_h" by simp
    with sf hs that show ?thesis by simp
  next
    case False
    with sb have "sp_h s = first" by simp
    with sf hs that False show ?thesis by (simp add: present_void)
  qed
  from a att b c show ?thesis by blast
qed

lemma ex_source_faithful: "source_faithful ex_source"
  by (auto simp: source_faithful_def ex_source_def ex_message_def split: if_splits)

text \<open>
  Two workers on the window \<open>[100, 103)\<close> with height \<open>101\<close> absent; the call for
  \<open>101\<close> resolves first and the call for \<open>100\<close> is rejected once.
\<close>

theorem ordered_delivery_witness:
  "source_faithful ex_source \<and>
   q_yielded (queue (parallel_run ex_source 2 100 (Some 103) ex_schedule)) =
     [ex_message 100 [] [], ex_message 102 [] []] \<and>
   q_values (queue (parallel_run ex_source 2 100 (Some 103) ex_schedule)) = [] \<and>
   nextToEmit (parallel_run ex_source 2 100 (Some 103) ex_schedule) = 103 \<and>
   present ex_source 100 103 = [ex_message 100 [] [], ex_message 102 [] []] \<and>
   sorted_wrt (<) (map height (q_yielded (queue (parallel_run ex_source 2 100 (Some 103) ex_schedule))))"
proof -
  have y: "q_yielded (queue (parallel_run ex_source 2 100 (Some 103) ex_schedule)) =
     [ex_message 100 [] [], ex_message 102 [] []]"
    "q_values (queue (parallel_run ex_source 2 100 (Some 103) ex_schedule)) = []"
    "nextToEmit (parallel_run ex_source 2 100 (Some 103) ex_schedule) = 103"
    by code_simp+
  note T = ordered_delivery [OF ex_source_faithful refl refl, of 2 100 "Some 103" ex_schedule]
  from T have "q_yielded (queue (parallel_run ex_source 2 100 (Some 103) ex_schedule)) @
      q_values (queue (parallel_run ex_source 2 100 (Some 103) ex_schedule)) =
      present ex_source 100 (nextToEmit (parallel_run ex_source 2 100 (Some 103) ex_schedule))"
    by (rule conjunct1)
  then have pr: "present ex_source 100 103 = [ex_message 100 [] [], ex_message 102 [] []]"
    unfolding y by simp
  from T have s: "sorted_wrt (<) (map height (q_yielded (queue (parallel_run ex_source 2 100 (Some 103) ex_schedule))))"
    by blast
  show ?thesis
    by (intro conjI ex_source_faithful y pr s)
qed

text \<open>The same window, where height \<open>101\<close> is absent, for both streamers.\<close>

theorem absent_heights_skipped_witness:
  "source_faithful ex_source \<and> ex_source 101 = None \<and>
   101 \<notin> height ` set (q_yielded (queue (parallel_run ex_source 2 100 (Some 103) ex_schedule))) \<and>
   101 \<notin> height ` set (q_yielded (sp_queue (serial_run ex_source 100 (Some 103)
                           [Resolve 100, Pull, Resolve 101, Resolve 102, Pull]))) \<and>
   map height (q_yielded (queue (parallel_run ex_source 2 100 (Some 103) ex_schedule))) = [100, 102] \<and>
   map height (q_yielded (sp_queue (serial_run ex_source 100 (Some 103)
                           [Resolve 100, Pull, Resolve 101, Resolve 102, Pull]))) = [100, 102] \<and>
   awaiting (parallel_run ex_source 2 100 (Some 103) ex_schedule) = [] \<and>
   q_done (queue (parallel_run ex_source 2 100 (Some 103) ex_schedule)) \<and>
   set (attempts (parallel_run ex_source 2 100 (Some 103) ex_schedule)) = {100..<103} \<and>
   sp_finished (serial_run ex_source 100 (Some 103) [Resolve 100, Pull, Resolve 101, Resolve 102, Pull]) \<and>
   set (sp_attempts (serial_run ex_source 100 (Some 103) [Resolve 100, Pull, Resolve 101, Resolve 102, Pull])) =
     {100..<103}"
proof -
  let ?p = "parallel_run ex_source 2 100 (Some 103) ex_schedule"
  let ?s = "serial_run ex_source 100 (Some 103) [Resolve 100, Pull, Resolve 101, Resolve 102, Pull]"
  have e: "awaiting ?p = []" "sp_finished ?s" "ex_source 101 = None"
    "map height (q_yielded (queue ?p)) = [100, 102]"
    "map height (q_yielded (sp_queue ?s)) = [100, 102]"
    by code_simp+
  note T = absent_heights_skipped [OF refl refl refl, of ex_source 101 2 100 "Some 103" ex_schedule
      "[Resolve 100, Pull, Resolve 101, Resolve 102, Pull]"]
  from T ex_source_faithful e(3)
  have a: "101 \<notin> height ` set (q_yielded (queue ?p))" "101 \<notin> height ` set (q_yielded (sp_queue ?s))"
    by blast+
  have l: "(2::nat) \<ge> 1 \<and> (100::int) < (case Some 103 of None \<Rightarrow> MAX_SAFE_INTEGER | Some l \<Rightarrow> l) \<and> awaiting ?p = []"
    using e(1) by simp
  from T l have "q_done (queue ?p) \<and>
      set (attempts ?p) = {100..<(case Some 103 of None \<Rightarrow> MAX_SAFE_INTEGER | Some l \<Rightarrow> l)}"
    by blast
  then have b: "q_done (queue ?p)" "set (attempts ?p) = {100..<103}"
    by simp_all
  from T e(2) have "set (sp_attempts ?s) = {100..<(case Some 103 of None \<Rightarrow> MAX_SAFE_INTEGER | Some l \<Rightarrow> l)}"
    by blast
  then have c: "set (sp_attempts ?s) = {100..<103}"
    by simp
  show ?thesis
    by (intro conjI ex_source_faithful e a b c)
qed


section \<open>A transaction completes exactly once\<close>

lemma never_throwsD:
  assumes "never_throws ix"
  shows "hook_resolves (ix_processBlock ix) a1 tr" and "hook_resolves (ix_processTransaction ix) a2 tr"
    and "hook_resolves (ix_processReceipt ix) a3 tr" and "hook_resolves (ix_onTransaction ix) a4 tr"
    and "hook_resolves (ix_onReceipt ix) a5 tr" and "hook_resolves (ix_processBlockEnd ix) a6 tr"
  using assms unfolding never_throws_def by blast+

lemma tx_loop_append:
  "tx_loop ix m opts (xs @ ys) s tr = andThen (tx_loop ix m opts xs s tr) (tx_loop ix m opts ys)"
proof (induction xs arbitrary: s tr)
  case Nil
  show ?case by simp
next
  case (Cons x xs)
  show ?case
    by (cases "tx_step ix m opts x s tr" rule: prod_cases3)
       (auto simp: Cons.IH andThen_def split: option.splits)
qed

lemma receipt_loop_append:
  "receipt_loop ix m opts (xs @ ys) s tr = andThen (receipt_loop ix m opts xs s tr) (receipt_loop ix m opts ys)"
proof (induction xs arbitrary: s tr)
  case Nil
  show ?case by simp
next
  case (Cons x xs)
  show ?case
    by (cases "receipt_step ix m opts x s tr" rule: prod_cases3)
       (auto simp: Cons.IH andThen_def split: option.splits)
qed

lemma shards_tx_loop_flat:
  "shards_tx_loop ix m opts shs s tr =
   tx_loop ix m opts (concat (map (\<lambda>sh. case chunk sh of None \<Rightarrow> [] | Some txs \<Rightarrow> txs) shs)) s tr"
proof (induction shs arbitrary: s tr)
  case Nil
  show ?case by simp
next
  case (Cons sh shs)
  show ?case
  proof (cases "chunk sh")
    case None
    then show ?thesis by (simp add: Cons.IH)
  next
    case (Some txs)
    have "(\<lambda>s tr. shards_tx_loop ix m opts shs s tr) =
      (\<lambda>s tr. tx_loop ix m opts (concat (map (\<lambda>sh. case chunk sh of None \<Rightarrow> [] | Some txs \<Rightarrow> txs) shs)) s tr)"
      by (intro ext) (rule Cons.IH)
    then show ?thesis
      using Some by (simp add: tx_loop_append)
  qed
qed

lemma shards_receipt_loop_flat:
  "shards_receipt_loop ix m opts shs s tr =
   receipt_loop ix m opts (concat (map receipt_execution_outcomes shs)) s tr"
proof (induction shs arbitrary: s tr)
  case Nil
  show ?case by simp
next
  case (Cons sh shs)
  have "(\<lambda>s tr. shards_receipt_loop ix m opts shs s tr) =
      (\<lambda>s tr. receipt_loop ix m opts (concat (map receipt_execution_outcomes shs)) s tr)"
    by (intro ext) (rule Cons.IH)
  then show ?case
    by (simp add: receipt_loop_append)
qed

lemma processBlock_flat:
  assumes "never_throws ix"
  shows "processBlock ix m opts s tr =
     andThen (tx_loop ix m opts (txs_of m) s
                (if handle_raw_events opts \<and> ix_processBlock ix \<noteq> None then tr @ [EvProcessBlock m] else tr))
       (\<lambda>s tr. andThen (receipt_loop ix m opts (rcs_of m) s tr)
          (\<lambda>s tr. (None, s, if ix_processBlockEnd ix \<noteq> None then tr @ [EvProcessBlockEnd m] else tr)))"
proof -
  note r = never_throwsD[OF assms]
  show ?thesis
    unfolding processBlock_def shards_tx_loop_flat shards_receipt_loop_flat txs_of_def rcs_of_def
    by (simp add: invoke_resolves[OF r(1)] invoke_resolves[OF r(6)])
qed

lemma calm_refl: "own_ok T U s \<Longrightarrow> pending_wf s \<Longrightarrow> calm T U s tr s tr"
  by (simp add: calm_def)

lemma calm_trans: "calm T U s tr s1 tr1 \<Longrightarrow> calm T U s1 tr1 s2 tr2 \<Longrightarrow> calm T U s tr s2 tr2"
  by (simp add: calm_def)

lemma fold_set_map_of:
  "Map_get (fold (\<lambda>r. Map_set r v) ids al) k = (if k \<in> set ids then Some v else Map_get al k)"
  by (induction ids arbitrary: al) (auto simp: update_conv')

lemma fold_set_subset:
  "set (fold (\<lambda>r. Map_set r v) ids al) \<subseteq> set al \<union> (\<lambda>r. (r, v)) ` set ids"
proof (induction ids arbitrary: al)
  case Nil
  show ?case by simp
next
  case (Cons r ids)
  from Cons.IH[of "Map_set r v al"] set_update_subset[of r v al]
  show ?case by auto
qed

lemma tx_step_quiet:
  assumes "never_throws ix"
  shows "tx_step ix m opts t s tr =
     (None, register_tx opts t s,
      if handle_raw_events opts \<and> ix_processTransaction ix \<noteq> None
      then tr @ [EvProcessTransaction t m] else tr)"
proof -
  show ?thesis
    by (simp add: tx_step_def invoke_resolves[OF never_throwsD(2)[OF assms]])
qed

lemma register_foreign:
  assumes f: "foreign_tx T U t" and o: "own_ok T U s" and w: "pending_wf s"
  shows "own_ok T U (register_tx opts t s)" and "pending_wf (register_tx opts t s)"
    and "Map_get (pendingTransactions (register_tx opts t s)) (tx_hash T) =
         Map_get (pendingTransactions s) (tx_hash T)"
    and "\<forall>k\<in>U. Map_get (receiptToTx (register_tx opts t s)) k = Map_get (receiptToTx s) k"
proof -
  from f have ne: "tx_hash t \<noteq> tx_hash T" and dis: "set (tx_receipt_ids t) \<inter> U = {}"
    by (simp_all add: foreign_tx_def)
  let ?r2t = "fold (\<lambda>r. Map_set r (tx_hash t)) (tx_receipt_ids t) (receiptToTx s)"
  have r2t: "receiptToTx (register_tx opts t s) = (if preprocess opts then ?r2t else receiptToTx s)"
    by (simp add: register_tx_def Let_def)
  have "list_all (\<lambda>(r, h). h = tx_hash T \<longrightarrow> r \<in> U) ?r2t"
    using o ne fold_set_subset[of "tx_hash t" "tx_receipt_ids t" "receiptToTx s"]
    by (auto simp: own_ok_def list_all_iff)
  with o show "own_ok T U (register_tx opts t s)"
    by (simp add: own_ok_def r2t)
  show "pending_wf (register_tx opts t s)"
    using w by (simp add: pending_wf_def register_tx_def Let_def list_all_update)
  show "Map_get (pendingTransactions (register_tx opts t s)) (tx_hash T) =
         Map_get (pendingTransactions s) (tx_hash T)"
    using ne by (simp add: register_tx_def Let_def update_conv')
  show "\<forall>k\<in>U. Map_get (receiptToTx (register_tx opts t s)) k = Map_get (receiptToTx s) k"
    using dis by (auto simp: r2t fold_set_map_of)
qed

lemma foreign_tx_loop:
  assumes nt: "never_throws ix"
  shows "list_all (foreign_tx T U) txs \<Longrightarrow> own_ok T U s \<Longrightarrow> pending_wf s \<Longrightarrow>
     \<exists>s' tr'. tx_loop ix m opts txs s tr = (None, s', tr') \<and> calm T U s tr s' tr'"
proof (induction txs arbitrary: s tr)
  case Nil
  then show ?case by (simp add: calm_refl)
next
  case (Cons t txs)
  let ?s1 = "register_tx opts t s"
  let ?tr1 = "if handle_raw_events opts \<and> ix_processTransaction ix \<noteq> None
      then tr @ [EvProcessTransaction t m] else tr"
  from Cons.prems have f: "foreign_tx T U t" and rest: "list_all (foreign_tx T U) txs" by simp_all
  note r = register_foreign[OF f Cons.prems(2,3), of opts]
  have c1: "calm T U s tr ?s1 ?tr1"
    using r by (simp add: calm_def for_tx_def)
  from Cons.IH[OF rest r(1,2), of ?tr1] obtain s' tr' where
    l: "tx_loop ix m opts txs ?s1 ?tr1 = (None, s', tr')" and c2: "calm T U ?s1 ?tr1 s' tr'"
    by blast
  have "tx_loop ix m opts (t # txs) s tr = (None, s', tr')"
    unfolding tx_loop.simps tx_step_quiet[OF nt] andThen_None by (rule l)
  with calm_trans[OF c1 c2] show ?case by blast
qed

lemma invoke_emit:
  "hook_resolves hk a tr \<Longrightarrow> invoke c hk a ev tr = (None, tr @ emit c hk ev)"
  by (simp add: invoke_resolves emit_def)

lemma follow_on_fst: "fst (follow_on h ids (r2t, rs)) = fold (\<lambda>r. Map_set r h) ids r2t"
  by (induction ids arbitrary: r2t rs) simp_all

lemma follow_on_snd_map_of:
  "Map_get (snd (follow_on h ids (r2t, rs))) k =
     (if Map_has rs k then Map_get rs k else if k \<in> set ids then Some None else None)"
  by (induction ids arbitrary: r2t rs) (auto simp: update_conv')

lemma follow_on_snd_keys:
  "fst ` set (snd (follow_on h ids (r2t, rs))) = fst ` set rs \<union> set ids"
  by (induction ids arbitrary: r2t rs) (auto simp: dom_update map_of_eq_None_iff)

lemma follow_on_snd_distinct:
  "distinct (map fst rs) \<Longrightarrow> distinct (map fst (snd (follow_on h ids (r2t, rs))))"
  by (induction ids arbitrary: r2t rs) (simp_all add: distinct_update)

lemma receipt_step_unowned:
  assumes "never_throws ix"
    and "(case Map_get (receiptToTx s) (r_receipt_id rc) of
            None \<Rightarrow> True
          | Some h \<Rightarrow> h = [] \<or> \<not> preprocess opts \<or> Map_get (pendingTransactions s) h = None)"
  shows "receipt_step ix m opts rc s tr =
     (None, s, tr @ emit (handle_raw_events opts) (ix_processReceipt ix) (EvProcessReceipt rc m))"
  using assms(2)
  by (auto simp: receipt_step_def invoke_emit[OF never_throwsD(3)[OF assms(1)]] split: option.splits)

lemma receipt_step_owned:
  assumes nt: "never_throws ix"
    and own: "Map_get (receiptToTx s) (r_receipt_id rc) = Some h" "h \<noteq> []" "preprocess opts"
      "Map_get (pendingTransactions s) h = Some inc"
    and fo: "fo = follow_on h (r_receipt_ids rc)
               (receiptToTx s, Map_set (r_receipt_id rc) (Some (make_processed rc m)) (it_receipts inc))"
    and cmp: "complete = list_all (\<lambda>r. r \<noteq> None) (Map_values (snd fo))"
  shows "receipt_step ix m opts rc s tr =
     (None,
      s\<lparr>receiptToTx := fst fo,
        pendingTransactions :=
          (if complete then Map_delete h (pendingTransactions s)
           else Map_set h (inc\<lparr>it_receipts := snd fo\<rparr>) (pendingTransactions s))\<rparr>,
      tr @ emit (handle_preprocessed_transactions_by_indexer opts) (ix_onReceipt ix)
             (EvOnReceipt (make_processed rc m) inc m)
         @ emit (complete \<and> handle_preprocessed_transactions_by_indexer opts) (ix_onTransaction ix)
             (EvOnTransaction \<lparr>ct_transaction = it_transaction inc,
                               ct_receipts = map the (Map_values (snd fo))\<rparr> m)
         @ emit (handle_raw_events opts) (ix_processReceipt ix) (EvProcessReceipt rc m))"
proof -
  note r = never_throwsD[OF nt]
  obtain r2t rs2 where f: "follow_on h (r_receipt_ids rc)
      (receiptToTx s, Map_set (r_receipt_id rc) (Some (make_processed rc m)) (it_receipts inc)) = (r2t, rs2)"
    by (cases "follow_on h (r_receipt_ids rc)
      (receiptToTx s, Map_set (r_receipt_id rc) (Some (make_processed rc m)) (it_receipts inc))") auto
  have rr: "resolve_receipt ix m opts rc h inc s tr =
     (None,
      s\<lparr>receiptToTx := r2t,
        pendingTransactions :=
          (if complete then Map_delete h (pendingTransactions s)
           else Map_set h (inc\<lparr>it_receipts := rs2\<rparr>) (pendingTransactions s))\<rparr>,
      tr @ emit (handle_preprocessed_transactions_by_indexer opts) (ix_onReceipt ix)
             (EvOnReceipt (make_processed rc m) inc m)
         @ emit (complete \<and> handle_preprocessed_transactions_by_indexer opts) (ix_onTransaction ix)
             (EvOnTransaction \<lparr>ct_transaction = it_transaction inc,
                               ct_receipts = map the (Map_values rs2)\<rparr> m))"
    unfolding resolve_receipt_def Let_def
    by (simp add: invoke_emit[OF r(5)] invoke_emit[OF r(4)] f cmp fo delete_update_same emit_def)
  show ?thesis
    unfolding receipt_step_def
    by (simp add: own rr invoke_emit[OF r(3)] fo f)
qed

lemma for_tx_emit_other [simp]:
  "filter (for_tx T) (emit c hk (EvOnReceipt a b d)) = []"
  "filter (for_tx T) (emit c hk (EvProcessReceipt x y)) = []"
  "filter (for_tx T) (emit c hk (EvProcessTransaction z y)) = []"
  "filter (for_tx T) (emit c hk (EvProcessBlock y)) = []"
  "filter (for_tx T) (emit c hk (EvProcessBlockEnd y)) = []"
  by (simp_all add: emit_def for_tx_def)

lemma foreign_receipt_step:
  assumes nt: "never_throws ix" and f: "foreign_rc U rc" and o: "own_ok T U s" and w: "pending_wf s"
  shows "\<exists>s' tr'. receipt_step ix m opts rc s tr = (None, s', tr') \<and> calm T U s tr s' tr'"
proof (cases "case Map_get (receiptToTx s) (r_receipt_id rc) of
            None \<Rightarrow> True
          | Some h \<Rightarrow> h = [] \<or> \<not> preprocess opts \<or> Map_get (pendingTransactions s) h = None")
  case True
  from receipt_step_unowned[OF nt True] o w show ?thesis
    by (simp add: calm_def)
next
  case False
  then obtain h inc where own: "Map_get (receiptToTx s) (r_receipt_id rc) = Some h" "h \<noteq> []" "preprocess opts"
      "Map_get (pendingTransactions s) h = Some inc"
    by (auto split: option.splits)
  from f have nu: "r_receipt_id rc \<notin> U" and dis: "set (r_receipt_ids rc) \<inter> U = {}"
    by (simp_all add: foreign_rc_def)
  from own(1) have "(r_receipt_id rc, h) \<in> set (receiptToTx s)" by (rule map_of_SomeD)
  with o nu have ne: "h \<noteq> tx_hash T" by (auto simp: own_ok_def list_all_iff)
  from own(4) have "(h, inc) \<in> set (pendingTransactions s)" by (rule map_of_SomeD)
  with w have hi: "tx_hash (it_transaction inc) = h" by (auto simp: pending_wf_def list_all_iff)
  define fo where "fo = follow_on h (r_receipt_ids rc)
               (receiptToTx s, Map_set (r_receipt_id rc) (Some (make_processed rc m)) (it_receipts inc))"
  define complete where "complete = list_all (\<lambda>r. r \<noteq> None) (Map_values (snd fo))"
  let ?s' = "s\<lparr>receiptToTx := fst fo,
        pendingTransactions :=
          (if complete then Map_delete h (pendingTransactions s)
           else Map_set h (inc\<lparr>it_receipts := snd fo\<rparr>) (pendingTransactions s))\<rparr>"
  note step = receipt_step_owned[OF nt own fo_def complete_def, of tr]
  have r2t: "receiptToTx ?s' = fold (\<lambda>r. Map_set r h) (r_receipt_ids rc) (receiptToTx s)"
    by (simp add: fo_def follow_on_fst)
  have c1: "own_ok T U ?s'"
    using o ne fold_set_subset[of h "r_receipt_ids rc" "receiptToTx s"]
    unfolding own_ok_def r2t list_all_iff by auto
  have c2: "pending_wf ?s'"
    using w hi by (simp add: pending_wf_def list_all_update list_all_delete)
  have c3: "Map_get (pendingTransactions ?s') (tx_hash T) = Map_get (pendingTransactions s) (tx_hash T)"
    using ne by (simp add: update_conv' delete_conv')
  have c4: "\<forall>k\<in>U. Map_get (receiptToTx ?s') k = Map_get (receiptToTx s) k"
    unfolding r2t using dis by (auto simp: fold_set_map_of)
  have c5: "filter (for_tx T) (emit (complete \<and> handle_preprocessed_transactions_by_indexer opts) (ix_onTransaction ix)
             (EvOnTransaction \<lparr>ct_transaction = it_transaction inc,
                               ct_receipts = map the (Map_values (snd fo))\<rparr> m)) = []"
    using ne hi by (auto simp: emit_def for_tx_def)
  show ?thesis
    unfolding step calm_def using c1 c2 c3 c4 c5 by simp
qed

lemma foreign_receipt_loop:
  assumes nt: "never_throws ix"
  shows "list_all (foreign_rc U) rcs \<Longrightarrow> own_ok T U s \<Longrightarrow> pending_wf s \<Longrightarrow>
     \<exists>s' tr'. receipt_loop ix m opts rcs s tr = (None, s', tr') \<and> calm T U s tr s' tr'"
proof (induction rcs arbitrary: s tr)
  case Nil
  then show ?case by (simp add: calm_refl)
next
  case (Cons rc rcs)
  from Cons.prems have f: "foreign_rc U rc" and rest: "list_all (foreign_rc U) rcs" by simp_all
  from foreign_receipt_step[OF nt f Cons.prems(2,3), of m opts tr] obtain s1 tr1 where
    st: "receipt_step ix m opts rc s tr = (None, s1, tr1)" and c1: "calm T U s tr s1 tr1"
    by blast
  from c1 have "own_ok T U s1" "pending_wf s1" by (simp_all add: calm_def)
  from Cons.IH[OF rest this, of tr1] obtain s' tr' where
    l: "receipt_loop ix m opts rcs s1 tr1 = (None, s', tr')" and c2: "calm T U s1 tr1 s' tr'"
    by blast
  have "receipt_loop ix m opts (rc # rcs) s tr = (None, s', tr')"
    by (simp add: st l)
  with calm_trans[OF c1 c2] show ?case by blast
qed

lemma Topen_pending:
  "Topen T M s \<Longrightarrow> Map_get (pendingTransactions s) (tx_hash T) = Some \<lparr>it_transaction = T, it_receipts = M\<rparr>"
  unfolding Topen_def by blast

lemma Topen_owner:
  "Topen T M s \<Longrightarrow> k \<in> fst ` set M \<Longrightarrow> Map_get (receiptToTx s) k = Some (tx_hash T)"
  unfolding Topen_def by blast

lemma TopenI:
  "Map_get (pendingTransactions s) (tx_hash T) = Some \<lparr>it_transaction = T, it_receipts = M\<rparr> \<Longrightarrow>
   (\<And>k. k \<in> fst ` set M \<Longrightarrow> Map_get (receiptToTx s) k = Some (tx_hash T)) \<Longrightarrow> Topen T M s"
  unfolding Topen_def by blast

lemma Topen_calm:
  "Topen T M s \<Longrightarrow> fst ` set M \<subseteq> U \<Longrightarrow> calm T U s tr s' tr' \<Longrightarrow> Topen T M s'"
  unfolding Topen_def calm_def by (metis subsetD)

lemma known_Suc:
  "i < length rs \<Longrightarrow>
   known T rs (Suc i) = known T rs i \<union> insert (r_receipt_id (rs ! i)) (set (r_receipt_ids (rs ! i)))"
  by (auto simp: known_def take_Suc_conv_app_nth)

lemma resolved_at_0 [simp]: "resolved_at rs ms 0 k = None"
  by (simp add: resolved_at_def)

lemma resolved_at_None_iff:
  assumes "length ms = length rs"
  shows "(resolved_at rs ms i k = None) = (k \<notin> r_receipt_id ` set (take i rs))"
proof -
  have "length (map r_receipt_id (take i rs)) = length (take i (procs rs ms))"
    using assms by (simp add: procs_def)
  from map_of_zip_is_None[OF this] show ?thesis
    by (simp add: resolved_at_def)
qed

lemma resolved_at_Suc:
  assumes i: "i < length rs" and len: "length ms = length rs" and d: "distinct (map r_receipt_id rs)"
  shows "resolved_at rs ms (Suc i) k =
     (if k = r_receipt_id (rs ! i) then Some (make_processed (rs ! i) (ms ! i)) else resolved_at rs ms i k)"
proof -
  have p: "procs rs ms ! i = make_processed (rs ! i) (ms ! i)" "i < length (procs rs ms)"
    using i len by (simp_all add: procs_def)
  have z: "zip (map r_receipt_id (take (Suc i) rs)) (take (Suc i) (procs rs ms)) =
      zip (map r_receipt_id (take i rs)) (take i (procs rs ms)) @
      [(r_receipt_id (rs ! i), make_processed (rs ! i) (ms ! i))]"
    using i p len by (simp add: take_Suc_conv_app_nth procs_def)
  have "r_receipt_id (rs ! i) \<notin> r_receipt_id ` set (take i rs)"
  proof
    assume "r_receipt_id (rs ! i) \<in> r_receipt_id ` set (take i rs)"
    then obtain j where j: "j < i" "r_receipt_id (rs ! j) = r_receipt_id (rs ! i)"
      using i by (auto simp: in_set_conv_nth)
    with d i have "j = i"
      by (simp add: distinct_conv_nth)
    with j(1) show False by simp
  qed
  then have n: "resolved_at rs ms i (r_receipt_id (rs ! i)) = None"
    by (simp add: resolved_at_None_iff[OF len])
  show ?thesis
    using n unfolding resolved_at_def z map_of_append
    by (auto simp: map_add_def split: option.splits)
qed

lemma fold_set_distinct:
  "distinct (map fst al) \<Longrightarrow> distinct (map fst (fold (\<lambda>r. Map_set r v) ids al))"
  by (induction ids arbitrary: al) (simp_all add: distinct_update)

lemma fold_set_keys:
  "fst ` set (fold (\<lambda>r. Map_set r v) ids al) = fst ` set al \<union> set ids"
  by (induction ids arbitrary: al) (auto simp: dom_update)

lemma new_mapping_Mstate:
  "Mstate T rs ms 0 (fold (\<lambda>r. Map_set r None) (tx_receipt_ids T) [])"
  unfolding Mstate_def
  by (simp add: known_def fold_set_map_of fold_set_distinct fold_set_keys)

lemma register_own:
  assumes p: "preprocess opts" "preprocess_new_transactions opts"
    and sub: "set (tx_receipt_ids T) \<subseteq> U" and o: "own_ok T U s" and w: "pending_wf s"
  shows "own_ok T U (register_tx opts T s)" and "pending_wf (register_tx opts T s)"
    and "Topen T (fold (\<lambda>r. Map_set r None) (tx_receipt_ids T) []) (register_tx opts T s)"
proof -
  let ?r2t = "fold (\<lambda>r. Map_set r (tx_hash T)) (tx_receipt_ids T) (receiptToTx s)"
  let ?M = "fold (\<lambda>r. Map_set r None) (tx_receipt_ids T) []"
  have r2t: "receiptToTx (register_tx opts T s) = ?r2t"
    and pe: "pendingTransactions (register_tx opts T s) =
       Map_set (tx_hash T) \<lparr>it_transaction = T, it_receipts = ?M\<rparr> (pendingTransactions s)"
    using p by (simp_all add: register_tx_def Let_def)
  show "own_ok T U (register_tx opts T s)"
    using o sub fold_set_subset[of "tx_hash T" "tx_receipt_ids T" "receiptToTx s"]
    unfolding own_ok_def r2t list_all_iff by auto
  show "pending_wf (register_tx opts T s)"
    using w unfolding pending_wf_def pe by (simp add: list_all_update)
  show "Topen T ?M (register_tx opts T s)"
    unfolding Topen_def r2t pe by (simp add: update_conv' fold_set_map_of fold_set_keys)
qed

lemma Mstate_entries:
  assumes "Mstate T rs ms j M"
  shows "((k, v) \<in> set M) = (k \<in> known T rs j \<and> v = resolved_at rs ms j k)"
proof -
  from assms have d: "distinct (map fst M)" and ks: "fst ` set M = known T rs j"
    and vs: "\<And>k. k \<in> known T rs j \<Longrightarrow> Map_get M k = Some (resolved_at rs ms j k)"
    by (simp_all add: Mstate_def)
  show ?thesis
  proof
    assume kv: "(k, v) \<in> set M"
    then have "k \<in> known T rs j" using ks by force
    moreover from kv d have "Map_get M k = Some v" by simp
    ultimately show "k \<in> known T rs j \<and> v = resolved_at rs ms j k" using vs by fastforce
  next
    assume "k \<in> known T rs j \<and> v = resolved_at rs ms j k"
    with vs have "Map_get M k = Some v" by simp
    then show "(k, v) \<in> set M" by (rule map_of_SomeD)
  qed
qed

lemma Mstate_complete_iff:
  assumes st: "Mstate T rs ms j M" and len: "length ms = length rs"
  shows "list_all (\<lambda>r. r \<noteq> None) (Map_values M) = (known T rs j \<subseteq> r_receipt_id ` set (take j rs))"
proof -
  have "list_all (\<lambda>r. r \<noteq> None) (Map_values M) = (\<forall>k v. (k, v) \<in> set M \<longrightarrow> v \<noteq> None)"
    by (auto simp: list_all_iff)
  also have "\<dots> = (\<forall>k\<in>known T rs j. resolved_at rs ms j k \<noteq> None)"
    unfolding Mstate_entries[OF st] by blast
  also have "\<dots> = (known T rs j \<subseteq> r_receipt_id ` set (take j rs))"
    unfolding resolved_at_None_iff[OF len] by blast
  finally show ?thesis .
qed

lemma resolved_at_all:
  assumes len: "length ms = length rs" and d: "distinct (map r_receipt_id rs)" and j: "j < length rs"
  shows "resolved_at rs ms (length rs) (r_receipt_id (rs ! j)) = Some (procs rs ms ! j)"
proof -
  have l: "length (map r_receipt_id rs) = length (procs rs ms)"
    using len by (simp add: procs_def)
  from map_of_zip_nth[OF l d, of j] j l show ?thesis
    by (simp add: resolved_at_def)
qed

lemma Mstate_final_receipts:
  assumes st: "Mstate T rs ms (length rs) M" and len: "length ms = length rs"
    and d: "distinct (map r_receipt_id rs)"
    and c: "list_all (\<lambda>r. r \<noteq> None) (Map_values M)"
  shows "set (map the (Map_values M)) = set (procs rs ms)" and "length (map the (Map_values M)) = length rs"
proof -
  let ?N = "length rs"
  have lp: "length (procs rs ms) = ?N" using len by (simp add: procs_def)
  from c have sub: "known T rs ?N \<subseteq> r_receipt_id ` set rs"
    unfolding Mstate_complete_iff[OF st len] by simp
  have "r_receipt_id ` set rs \<subseteq> known T rs ?N" by (auto simp: known_def)
  with sub have kn: "known T rs ?N = r_receipt_id ` set rs" by blast
  have "set (map the (Map_values M)) = (\<lambda>(k, v). the v) ` set M" by (auto simp: case_prod_beta)
  also have "\<dots> = set (procs rs ms)"
  proof (rule set_eqI)
    fix x
    show "(x \<in> (\<lambda>(k, v). the v) ` set M) = (x \<in> set (procs rs ms))"
    proof
      assume "x \<in> (\<lambda>(k, v). the v) ` set M"
      then obtain k v where kv: "(k, v) \<in> set M" "x = the v" by auto
      from kv(1) have "k \<in> known T rs ?N" "v = resolved_at rs ms ?N k"
        unfolding Mstate_entries[OF st] by simp_all
      moreover from this(1) kn obtain j where "j < ?N" "k = r_receipt_id (rs ! j)"
        by (auto simp: in_set_conv_nth)
      ultimately have "x = procs rs ms ! j" "j < ?N"
        using kv(2) resolved_at_all[OF len d] by simp_all
      with lp show "x \<in> set (procs rs ms)" by simp
    next
      assume "x \<in> set (procs rs ms)"
      then obtain j where j: "j < ?N" "x = procs rs ms ! j"
        using lp by (auto simp: in_set_conv_nth)
      then have "r_receipt_id (rs ! j) \<in> known T rs ?N" using kn by simp
      with resolved_at_all[OF len d j(1)]
      have "(r_receipt_id (rs ! j), Some (procs rs ms ! j)) \<in> set M"
        unfolding Mstate_entries[OF st] by simp
      with j(2) show "x \<in> (\<lambda>(k, v). the v) ` set M" by force
    qed
  qed
  finally show "set (map the (Map_values M)) = set (procs rs ms)" .
  from st have "distinct (map fst M)" "set (map fst M) = known T rs ?N"
    by (simp_all add: Mstate_def)
  then have "length (map fst M) = card (r_receipt_id ` set rs)"
    using kn distinct_card[of "map fst M"] by simp
  also have "\<dots> = ?N" using distinct_card[OF d] by simp
  finally show "length (map the (Map_values M)) = length rs" by simp
qed

lemma resolve_own:
  assumes nt: "never_throws ix" and i: "i < length rs" and len: "length ms = length rs"
    and d: "distinct (map r_receipt_id rs)" and hne: "tx_hash T \<noteq> []" and pp: "preprocess opts"
    and U: "U = r_receipt_id ` set rs"
    and fol: "set (r_receipt_ids (rs ! i)) \<subseteq> U"
    and causal: "r_receipt_id (rs ! i) \<in> known T rs i"
    and tOpen: "Topen T M s" and st: "Mstate T rs ms i M" and o: "own_ok T U s" and w: "pending_wf s"
    and M': "M' = snd (follow_on (tx_hash T) (r_receipt_ids (rs ! i))
               (receiptToTx s, Map_set (r_receipt_id (rs ! i)) (Some (make_processed (rs ! i) (ms ! i))) M))"
    and cmp: "complete = list_all (\<lambda>r. r \<noteq> None) (Map_values M')"
  shows "\<exists>s'. receipt_step ix (ms ! i) opts (rs ! i) s tr =
           (None, s',
            tr @ emit (handle_preprocessed_transactions_by_indexer opts) (ix_onReceipt ix)
                   (EvOnReceipt (make_processed (rs ! i) (ms ! i)) \<lparr>it_transaction = T, it_receipts = M\<rparr> (ms ! i))
               @ emit (complete \<and> handle_preprocessed_transactions_by_indexer opts) (ix_onTransaction ix)
                   (EvOnTransaction \<lparr>ct_transaction = T, ct_receipts = map the (Map_values M')\<rparr> (ms ! i))
               @ emit (handle_raw_events opts) (ix_processReceipt ix) (EvProcessReceipt (rs ! i) (ms ! i))) \<and>
           own_ok T U s' \<and> pending_wf s' \<and> Mstate T rs ms (Suc i) M' \<and>
           (if complete then Map_get (pendingTransactions s') (tx_hash T) = None else Topen T M' s')"
proof -
  let ?H = "tx_hash T" and ?rc = "rs ! i" and ?m = "ms ! i"
  let ?inc = "\<lparr>it_transaction = T, it_receipts = M\<rparr>"
  let ?M1 = "Map_set (r_receipt_id ?rc) (Some (make_processed ?rc ?m)) M"
  define fo where "fo = follow_on ?H (r_receipt_ids ?rc) (receiptToTx s, Map_set (r_receipt_id ?rc)
      (Some (make_processed ?rc ?m)) (it_receipts ?inc))"
  have M'fo: "M' = snd fo" by (simp add: fo_def M')
  from st have dM: "distinct (map fst M)" and kM: "fst ` set M = known T rs i"
    and vM: "\<And>k. k \<in> known T rs i \<Longrightarrow> Map_get M k = Some (resolved_at rs ms i k)"
    by (simp_all add: Mstate_def)
  from causal kM have idin: "r_receipt_id ?rc \<in> fst ` set M" by simp
  from tOpen idin have own1: "Map_get (receiptToTx s) (r_receipt_id ?rc) = Some ?H"
    by (rule Topen_owner)
  from tOpen have own4: "Map_get (pendingTransactions s) ?H = Some ?inc"
    by (rule Topen_pending)
  have cmp': "complete = list_all (\<lambda>r. r \<noteq> None) (Map_values (snd fo))"
    by (simp add: cmp M'fo)
  let ?s' = "s\<lparr>receiptToTx := fst fo,
        pendingTransactions :=
          (if complete then Map_delete ?H (pendingTransactions s)
           else Map_set ?H (?inc\<lparr>it_receipts := snd fo\<rparr>) (pendingTransactions s))\<rparr>"
  note step = receipt_step_owned[OF nt own1 hne pp own4 fo_def cmp', of tr]
  have r2t: "receiptToTx ?s' = fold (\<lambda>r. Map_set r ?H) (r_receipt_ids ?rc) (receiptToTx s)"
    by (simp add: fo_def follow_on_fst)
  have c1: "own_ok T U ?s'"
    using o fol fold_set_subset[of ?H "r_receipt_ids ?rc" "receiptToTx s"]
    unfolding own_ok_def r2t list_all_iff by auto
  have c2: "pending_wf ?s'"
    using w by (simp add: pending_wf_def list_all_update list_all_delete)
  have kM1: "fst ` set ?M1 = known T rs i"
    using kM idin by (auto simp: dom_update)
  have kM': "fst ` set M' = known T rs (Suc i)"
    unfolding M' follow_on_snd_keys kM1 known_Suc[OF i] using causal by auto
  have dM': "distinct (map fst M')"
    unfolding M' by (intro follow_on_snd_distinct) (simp add: distinct_update dM)
  have vM': "Map_get M' k = Some (resolved_at rs ms (Suc i) k)" if k: "k \<in> known T rs (Suc i)" for k
  proof (cases "k = r_receipt_id ?rc")
    case True
    then show ?thesis
      unfolding M' follow_on_snd_map_of resolved_at_Suc[OF i len d]
      by (simp add: update_conv')
  next
    case ne: False
    show ?thesis
    proof (cases "k \<in> known T rs i")
      case True
      with vM[OF True] ne show ?thesis
        unfolding M' follow_on_snd_map_of resolved_at_Suc[OF i len d]
        by (simp add: update_conv')
    next
      case False
      with k ne have kf: "k \<in> set (r_receipt_ids ?rc)"
        by (auto simp: known_Suc[OF i])
      from False kM have nk: "Map_get M k = None"
        by (simp add: map_of_eq_None_iff)
      have "k \<notin> r_receipt_id ` set (take i rs)"
        using False by (auto simp: known_def)
      then have "resolved_at rs ms i k = None"
        by (simp add: resolved_at_None_iff[OF len])
      with ne nk kf show ?thesis
        unfolding M' follow_on_snd_map_of resolved_at_Suc[OF i len d]
        by (simp add: update_conv')
    qed
  qed
  have c3: "Mstate T rs ms (Suc i) M'"
    unfolding Mstate_def using dM' kM' vM' by blast
  have c4: "Topen T M' ?s'" if "\<not> complete"
  proof -
    have "Map_get (receiptToTx ?s') k = Some ?H" if "k \<in> fst ` set M'" for k
    proof (cases "k \<in> set (r_receipt_ids ?rc)")
      case True
      then show ?thesis unfolding r2t by (simp add: fold_set_map_of)
    next
      case False
      with that have "k \<in> fst ` set M"
        unfolding M' follow_on_snd_keys kM1 kM by simp
      with tOpen have "Map_get (receiptToTx s) k = Some ?H" by (rule Topen_owner)
      with False show ?thesis
        unfolding r2t by (simp add: fold_set_map_of)
    qed
    moreover have "Map_get (pendingTransactions ?s') ?H = Some \<lparr>it_transaction = T, it_receipts = M'\<rparr>"
      using \<open>\<not> complete\<close> by (simp add: update_conv' M'fo)
    ultimately show ?thesis by (rule TopenI[rotated])
  qed
  have c5: "Map_get (pendingTransactions ?s') ?H = None" if "complete"
    using that by (simp add: delete_conv')
  show ?thesis
    unfolding step using c1 c2 c3 c4 c5 by (auto simp: M'fo)
qed

lemma filter_single:
  assumes "filter (\<lambda>x. \<not> P x) xs = [y]"
  shows "\<exists>us vs. xs = us @ y # vs \<and> list_all P us \<and> list_all P vs"
proof -
  from assms obtain us vs where "xs = us @ y # vs" "\<forall>u\<in>set us. P u" "filter (\<lambda>x. \<not> P x) vs = []"
    unfolding filter_eq_Cons_iff by auto
  then show ?thesis
    by (auto simp: list_all_iff filter_empty_conv)
qed

lemma filter_none:
  "filter (\<lambda>x. \<not> P x) xs = [] \<Longrightarrow> list_all P xs"
  by (simp add: list_all_iff filter_empty_conv)

lemma known_subset:
  assumes "set (tx_receipt_ids T) \<union> (\<Union>r\<in>set rs. set (r_receipt_ids r)) \<subseteq> r_receipt_id ` set rs"
  shows "known T rs i \<subseteq> r_receipt_id ` set rs"
proof -
  have "set (take i rs) \<subseteq> set rs" by (rule set_take_subset)
  with assms show ?thesis unfolding known_def by blast
qed

lemma tx_phase_first:
  assumes nt: "never_throws ix" and p: "preprocess opts" "preprocess_new_transactions opts"
    and sub: "set (tx_receipt_ids T) \<subseteq> U"
    and txs: "filter (\<lambda>t. \<not> foreign_tx T U t) txs = [T]"
    and o: "own_ok T U s" and w: "pending_wf s"
  shows "\<exists>s' tr'. tx_loop ix m opts txs s tr = (None, s', tr') \<and> own_ok T U s' \<and> pending_wf s' \<and>
           filter (for_tx T) tr' = filter (for_tx T) tr \<and>
           Topen T (fold (\<lambda>r. Map_set r None) (tx_receipt_ids T) []) s'"
proof -
  let ?M = "fold (\<lambda>r. Map_set r None) (tx_receipt_ids T) []"
  from filter_single[OF txs] obtain A B where
    split: "txs = A @ T # B" and A: "list_all (foreign_tx T U) A" and B: "list_all (foreign_tx T U) B"
    by blast
  from foreign_tx_loop[OF nt A o w, of m opts tr] obtain s1 tr1 where
    l1: "tx_loop ix m opts A s tr = (None, s1, tr1)" and c1: "calm T U s tr s1 tr1" by blast
  from c1 have o1: "own_ok T U s1" and w1: "pending_wf s1" and f1: "filter (for_tx T) tr1 = filter (for_tx T) tr"
    by (simp_all add: calm_def)
  let ?s2 = "register_tx opts T s1"
  let ?tr2 = "if handle_raw_events opts \<and> ix_processTransaction ix \<noteq> None
      then tr1 @ [EvProcessTransaction T m] else tr1"
  note r = register_own[OF p sub o1 w1]
  have f2: "filter (for_tx T) ?tr2 = filter (for_tx T) tr" using f1 by (simp add: for_tx_def)
  from foreign_tx_loop[OF nt B r(1,2), of m opts ?tr2] obtain s3 tr3 where
    l3: "tx_loop ix m opts B ?s2 ?tr2 = (None, s3, tr3)" and c3: "calm T U ?s2 ?tr2 s3 tr3" by blast
  have "fst ` set ?M \<subseteq> U" using sub by (simp add: fold_set_keys)
  from Topen_calm[OF r(3) this c3] have t3: "Topen T ?M s3" .
  have "tx_loop ix m opts txs s tr = (None, s3, tr3)"
    unfolding split tx_loop_append l1 andThen_None tx_loop.simps tx_step_quiet[OF nt] by (rule l3)
  with c3 f2 t3 show ?thesis by (auto simp: calm_def)
qed

lemma for_tx_emit_own:
  "filter (for_tx T) (emit c hk (EvOnTransaction \<lparr>ct_transaction = T, ct_receipts = RS\<rparr> m)) =
   emit c hk (EvOnTransaction \<lparr>ct_transaction = T, ct_receipts = RS\<rparr> m)"
  by (simp add: emit_def for_tx_def)

text \<open>The receipts of \<open>T\<close> per block, and the slice of them that one block resolves.\<close>

lemma homes_length:
  "length ms = length rss \<Longrightarrow> length (homes rss ms) = length (concat rss)"
  by (induction ms rss rule: list_induct2) (simp_all add: homes_def)

lemma homes_append:
  "length A = length B \<Longrightarrow> homes (A @ A') (B @ B') = homes A B @ homes A' B'"
  by (simp add: homes_def)

lemma homes_single: "homes [own] [m] = replicate (length own) m"
  by (simp add: homes_def)

lemma block_slice:
  assumes i: "i < length rss" and len: "length ms = length rss"
    and k: "k = length (concat (take i rss))"
  shows "take (length (rss ! i)) (drop k (concat rss)) = rss ! i"
    and "\<And>j. k \<le> j \<Longrightarrow> j < k + length (rss ! i) \<Longrightarrow> homes rss ms ! j = ms ! i"
    and "k + length (rss ! i) = length (concat (take (Suc i) rss))"
    and "k + length (rss ! i) \<le> length (concat rss)"
proof -
  have r: "rss = take i rss @ [rss ! i] @ drop (Suc i) rss"
    using i by (simp add: id_take_nth_drop[symmetric])
  have m: "ms = take i ms @ [ms ! i] @ drop (Suc i) ms"
    using i len by (simp add: id_take_nth_drop[symmetric])
  have c: "concat rss = concat (take i rss) @ rss ! i @ concat (drop (Suc i) rss)"
    by (subst r) simp
  show "take (length (rss ! i)) (drop k (concat rss)) = rss ! i"
    by (subst c) (simp add: k)
  have lt: "length (take i rss) = length (take i ms)" using len by simp
  have h: "homes rss ms = homes (take i rss) (take i ms) @ replicate (length (rss ! i)) (ms ! i)
       @ homes (drop (Suc i) rss) (drop (Suc i) ms)"
    apply (subst r, subst m)
    apply (simp only: homes_append[OF lt])
    apply (subst homes_append[of "[rss ! i]" "[ms ! i]"])
     apply simp
    apply (simp add: homes_single)
    done
  have lk: "length (homes (take i rss) (take i ms)) = k"
    unfolding k by (rule homes_length) (simp add: len)
  show "homes rss ms ! j = ms ! i" if "k \<le> j" "j < k + length (rss ! i)" for j
  proof -
    from that have a: "\<not> j < k" "j - k < length (rss ! i)" by arith+
    have "homes rss ms ! j = (replicate (length (rss ! i)) (ms ! i)
       @ homes (drop (Suc i) rss) (drop (Suc i) ms)) ! (j - k)"
      by (subst h) (simp only: nth_append lk a(1) if_False)
    also have "\<dots> = ms ! i"
      using a(2) by (simp add: nth_append)
    finally show ?thesis .
  qed
  show "k + length (rss ! i) = length (concat (take (Suc i) rss))"
    using i by (simp add: k take_Suc_conv_app_nth)
  have "length (concat rss) = k + length (rss ! i) + length (concat (drop (Suc i) rss))"
    using arg_cong[OF c, of length] by (simp add: k)
  then show "k + length (rss ! i) \<le> length (concat rss)" by simp
qed

text \<open>
  What is foreign to \<open>T\<close> leaves its state alone; a receipt of \<open>T\<close> moves it on by one,
  and the last receipt closes \<open>T\<close> with a call of \<open>onTransaction\<close>.
\<close>

lemma tracked_calm:
  assumes t: "tracked T rs ms tr0 k s tr" and c: "calm T (r_receipt_id ` set rs) s tr s' tr'"
    and closed: "set (tx_receipt_ids T) \<union> (\<Union>r\<in>set rs. set (r_receipt_ids r)) \<subseteq> r_receipt_id ` set rs"
  shows "tracked T rs ms tr0 k s' tr'"
proof -
  let ?U = "r_receipt_id ` set rs"
  from c have o: "own_ok T ?U s'" and w: "pending_wf s'"
    and p: "Map_get (pendingTransactions s') (tx_hash T) = Map_get (pendingTransactions s) (tx_hash T)"
    and f: "filter (for_tx T) tr' = filter (for_tx T) tr"
    by (simp_all add: calm_def)
  show ?thesis
  proof (cases "k < length rs")
    case True
    with t obtain M where M: "Topen T M s" "Mstate T rs ms k M"
      and f0: "filter (for_tx T) tr = filter (for_tx T) tr0"
      by (auto simp: tracked_def)
    from M(2) known_subset[OF closed, of k] have "fst ` set M \<subseteq> ?U" by (simp add: Mstate_def)
    from Topen_calm[OF M(1) this c] M(2) True o w f f0 show ?thesis
      by (auto simp: tracked_def)
  next
    case False
    with t o w p f show ?thesis by (auto simp: tracked_def)
  qed
qed

lemma tracked_event:
  assumes "tracked T rs ms tr0 k s tr" and "\<not> for_tx T ev"
  shows "tracked T rs ms tr0 k s (tr @ [ev])"
  using assms by (auto simp: tracked_def)

lemma tracked_own:
  assumes nt: "never_throws ix" and k: "k < length rs" and len: "length ms = length rs"
    and d: "distinct (map r_receipt_id rs)" and hne: "tx_hash T \<noteq> []"
    and pp: "preprocess opts" and flag: "handle_preprocessed_transactions_by_indexer opts"
    and hook: "ix_onTransaction ix \<noteq> None"
    and closed: "set (tx_receipt_ids T) \<union> (\<Union>r\<in>set rs. set (r_receipt_ids r)) \<subseteq> r_receipt_id ` set rs"
    and causal: "\<forall>j<length rs. r_receipt_id (rs ! j) \<in>
        set (tx_receipt_ids T) \<union> (\<Union>r\<in>set (take j rs). set (r_receipt_ids r))"
    and t: "tracked T rs ms tr0 k s tr"
  shows "\<exists>s' tr'. receipt_step ix (ms ! k) opts (rs ! k) s tr = (None, s', tr') \<and>
           tracked T rs ms tr0 (Suc k) s' tr'"
proof -
  let ?m = "ms ! k" and ?rc = "rs ! k" and ?H = "tx_hash T" and ?U = "r_receipt_id ` set rs"
  from t k obtain M where o: "own_ok T ?U s" and w: "pending_wf s"
    and f0: "filter (for_tx T) tr = filter (for_tx T) tr0"
    and tOpen: "Topen T M s" and st: "Mstate T rs ms k M"
    by (auto simp: tracked_def)
  have kU: "known T rs j \<subseteq> ?U" for j
    by (rule known_subset) (rule closed)
  define M' where "M' = snd (follow_on ?H (r_receipt_ids ?rc)
               (receiptToTx s, Map_set (r_receipt_id ?rc) (Some (make_processed ?rc ?m)) M))"
  define complete where "complete = list_all (\<lambda>r. r \<noteq> None) (Map_values M')"
  from k have "?rc \<in> set rs" by simp
  with closed have fol: "set (r_receipt_ids ?rc) \<subseteq> ?U" by blast
  have cau: "r_receipt_id ?rc \<in> known T rs k"
    using causal k unfolding known_def by blast
  from resolve_own[OF nt k len d hne pp refl fol cau tOpen st o w M'_def complete_def, of tr]
  obtain s2 where
    l2: "receipt_step ix ?m opts ?rc s tr =
           (None, s2,
            tr @ emit (handle_preprocessed_transactions_by_indexer opts) (ix_onReceipt ix)
                   (EvOnReceipt (make_processed ?rc ?m) \<lparr>it_transaction = T, it_receipts = M\<rparr> ?m)
               @ emit (complete \<and> handle_preprocessed_transactions_by_indexer opts) (ix_onTransaction ix)
                   (EvOnTransaction \<lparr>ct_transaction = T, ct_receipts = map the (Map_values M')\<rparr> ?m)
               @ emit (handle_raw_events opts) (ix_processReceipt ix) (EvProcessReceipt ?rc ?m))"
      (is "_ = (None, s2, ?tr2)")
    and o2: "own_ok T ?U s2" and w2: "pending_wf s2" and st2: "Mstate T rs ms (Suc k) M'"
    and fin: "if complete then Map_get (pendingTransactions s2) ?H = None else Topen T M' s2"
    by blast
  have f2: "filter (for_tx T) ?tr2 = filter (for_tx T) tr0 @
      (if complete then [EvOnTransaction \<lparr>ct_transaction = T, ct_receipts = map the (Map_values M')\<rparr> ?m] else [])"
    using f0 flag hook by (simp add: for_tx_emit_own) (simp add: emit_def)
  have ciff: "complete = (known T rs (Suc k) \<subseteq> r_receipt_id ` set (take (Suc k) rs))"
    unfolding complete_def by (rule Mstate_complete_iff[OF st2 len])
  have "tracked T rs ms tr0 (Suc k) s2 ?tr2"
  proof (cases "Suc k < length rs")
    case True
    have "r_receipt_id (rs ! Suc k) \<in> known T rs (Suc k)"
      using causal True unfolding known_def by blast
    moreover have "r_receipt_id (rs ! Suc k) \<notin> r_receipt_id ` set (take (Suc k) rs)"
    proof
      assume "r_receipt_id (rs ! Suc k) \<in> r_receipt_id ` set (take (Suc k) rs)"
      then obtain j where j: "j < Suc k" "r_receipt_id (rs ! j) = r_receipt_id (rs ! Suc k)"
        using True by (auto simp: in_set_conv_nth)
      with d True have "j = Suc k" by (simp add: distinct_conv_nth)
      with j(1) show False by simp
    qed
    ultimately have nc: "\<not> complete" unfolding ciff by blast
    with fin have "Topen T M' s2" by simp
    with True o2 w2 f2 nc st2 show ?thesis
      unfolding tracked_def by auto
  next
    case False
    with k have N: "Suc k = length rs" by simp
    have c: "complete" unfolding ciff N using kU[of "length rs"] by simp
    from st2 c have rs': "set (map the (Map_values M')) = set (procs rs ms)"
        "length (map the (Map_values M')) = length rs"
      unfolding N complete_def by (rule Mstate_final_receipts[OF _ len d])+
    have la: "last ms = ?m"
      using N len k by (cases ms rule: rev_cases) (auto simp: nth_append)
    from fin c have "Map_get (pendingTransactions s2) ?H = None" by simp
    with False o2 w2 f2 c rs' la show ?thesis
      unfolding tracked_def by auto
  qed
  with l2 show ?thesis by blast
qed

lemma take_drop_Cons:
  assumes "x # xs = take n (drop k rs)"
  shows "k < length rs" and "x = rs ! k" and "\<exists>n'. n = Suc n' \<and> xs = take n' (drop (Suc k) rs)"
proof -
  have ne: "drop k rs \<noteq> []" and n0: "n \<noteq> 0"
  proof -
    show "drop k rs \<noteq> []"
    proof
      assume "drop k rs = []"
      with assms show False by simp
    qed
    show "n \<noteq> 0"
    proof
      assume "n = 0"
      with assms show False by simp
    qed
  qed
  then show k: "k < length rs" by simp
  from n0 obtain n' where n: "n = Suc n'" by (cases n) auto
  from k have dr: "drop k rs = rs ! k # drop (Suc k) rs" by (simp add: Cons_nth_drop_Suc)
  from assms show "x = rs ! k" unfolding n dr by simp
  from assms have "xs = take n' (drop (Suc k) rs)" unfolding n dr by simp
  with n show "\<exists>n'. n = Suc n' \<and> xs = take n' (drop (Suc k) rs)" by blast
qed

lemma receipt_loop_tracked:
  assumes nt: "never_throws ix" and len: "length ms = length rs"
    and d: "distinct (map r_receipt_id rs)" and hne: "tx_hash T \<noteq> []"
    and pp: "preprocess opts" and flag: "handle_preprocessed_transactions_by_indexer opts"
    and hook: "ix_onTransaction ix \<noteq> None"
    and closed: "set (tx_receipt_ids T) \<union> (\<Union>r\<in>set rs. set (r_receipt_ids r)) \<subseteq> r_receipt_id ` set rs"
    and causal: "\<forall>j<length rs. r_receipt_id (rs ! j) \<in>
        set (tx_receipt_ids T) \<union> (\<Union>r\<in>set (take j rs). set (r_receipt_ids r))"
  shows "filter (\<lambda>r. \<not> foreign_rc (r_receipt_id ` set rs) r) rcs = take n (drop k rs) \<Longrightarrow>
     k + n \<le> length rs \<Longrightarrow> (\<And>j. k \<le> j \<Longrightarrow> j < k + n \<Longrightarrow> ms ! j = m) \<Longrightarrow>
     tracked T rs ms tr0 k s tr \<Longrightarrow>
     \<exists>s' tr'. receipt_loop ix m opts rcs s tr = (None, s', tr') \<and> tracked T rs ms tr0 (k + n) s' tr'"
proof (induction rcs arbitrary: k n s tr)
  case Nil
  from Nil.prems(1) have "n = 0 \<or> length rs \<le> k" by auto
  with Nil.prems(2) have "n = 0" by auto
  with Nil.prems(4) show ?case by simp
next
  case (Cons rc rcs)
  let ?U = "r_receipt_id ` set rs"
  show ?case
  proof (cases "foreign_rc ?U rc")
    case True
    from Cons.prems(4) have o: "own_ok T ?U s" and w: "pending_wf s" by (simp_all add: tracked_def)
    from foreign_receipt_step[OF nt True o w, of m opts tr] obtain s1 tr1 where
      st: "receipt_step ix m opts rc s tr = (None, s1, tr1)" and c1: "calm T ?U s tr s1 tr1"
      by blast
    from tracked_calm[OF Cons.prems(4) c1 closed] have t1: "tracked T rs ms tr0 k s1 tr1" .
    from Cons.prems(1) True have f: "filter (\<lambda>r. \<not> foreign_rc ?U r) rcs = take n (drop k rs)" by simp
    from Cons.IH[OF f Cons.prems(2,3) t1] obtain s' tr' where
      "receipt_loop ix m opts rcs s1 tr1 = (None, s', tr')" "tracked T rs ms tr0 (k + n) s' tr'"
      by blast
    with st show ?thesis by simp
  next
    case False
    with Cons.prems(1) have e: "rc # filter (\<lambda>r. \<not> foreign_rc ?U r) rcs = take n (drop k rs)" by simp
    from take_drop_Cons[OF e] obtain n' where k: "k < length rs" and rc: "rc = rs ! k"
      and n: "n = Suc n'" and f: "filter (\<lambda>r. \<not> foreign_rc ?U r) rcs = take n' (drop (Suc k) rs)"
      by blast
    have m: "ms ! k = m" using Cons.prems(3)[of k] n by simp
    from tracked_own[OF nt k len d hne pp flag hook closed causal Cons.prems(4)] obtain s1 tr1 where
      st: "receipt_step ix m opts rc s tr = (None, s1, tr1)" and t1: "tracked T rs ms tr0 (Suc k) s1 tr1"
      unfolding m rc by blast
    have b: "Suc k + n' \<le> length rs" using Cons.prems(2) n by simp
    have h: "ms ! j = m" if "Suc k \<le> j" "j < Suc k + n'" for j
      using Cons.prems(3)[of j] that n by simp
    from Cons.IH[OF f b h t1] obtain s' tr' where
      "receipt_loop ix m opts rcs s1 tr1 = (None, s', tr')" "tracked T rs ms tr0 (Suc k + n') s' tr'"
      by blast
    with st n show ?thesis by simp
  qed
qed

lemma homes_last:
  assumes "length rss = length ms" and "rss \<noteq> []" and "last rss \<noteq> []"
  shows "last (homes rss ms) = last ms"
proof -
  from assms have mne: "ms \<noteq> []" by auto
  have r: "rss = butlast rss @ [last rss]" using assms(2) by simp
  have m: "ms = butlast ms @ [last ms]" using mne by simp
  have l: "length (butlast rss) = length (butlast ms)" using assms(1) by simp
  have "homes rss ms = homes (butlast rss) (butlast ms) @ replicate (length (last rss)) (last ms)"
    by (subst r, subst m) (simp only: homes_append[OF l] homes_single)
  with assms(3) show ?thesis by simp
qed

lemma feed_append:
  "feed ix (xs @ ys) s tr =
     (case feed ix xs s tr of (es1, s1, tr1) \<Rightarrow>
        (case feed ix ys s1 tr1 of (es2, s2, tr2) \<Rightarrow> (es1 @ es2, s2, tr2)))"
  by (induction xs arbitrary: s tr) (auto split: prod.splits)

lemma feed_snoc:
  "feed ix xs s0 tr0 = (es, s, tr) \<Longrightarrow> processBlock ix (fst x) (snd x) s tr = (e, s', tr') \<Longrightarrow>
   feed ix (xs @ [x]) s0 tr0 = (es @ [e], s', tr')"
  by (cases x) (simp add: feed_append)

text \<open>One block of the scenario: a later block, and the block that registers \<open>T\<close>.\<close>

lemma block_tracked_later:
  assumes nt: "never_throws ix" and len: "length ms = length rs"
    and d: "distinct (map r_receipt_id rs)" and hne: "tx_hash T \<noteq> []"
    and pp: "preprocess opts" and flag: "handle_preprocessed_transactions_by_indexer opts"
    and hook: "ix_onTransaction ix \<noteq> None"
    and closed: "set (tx_receipt_ids T) \<union> (\<Union>r\<in>set rs. set (r_receipt_ids r)) \<subseteq> r_receipt_id ` set rs"
    and causal: "\<forall>j<length rs. r_receipt_id (rs ! j) \<in>
        set (tx_receipt_ids T) \<union> (\<Union>r\<in>set (take j rs). set (r_receipt_ids r))"
    and txs: "filter (\<lambda>t. \<not> foreign_tx T (r_receipt_id ` set rs) t) (txs_of m) = []"
    and rcs: "filter (\<lambda>r. \<not> foreign_rc (r_receipt_id ` set rs) r) (rcs_of m) = take n (drop k rs)"
    and b: "k + n \<le> length rs" and h: "\<And>j. k \<le> j \<Longrightarrow> j < k + n \<Longrightarrow> ms ! j = m"
    and t: "tracked T rs ms tr0 k s tr"
  shows "\<exists>s' tr'. processBlock ix m opts s tr = (None, s', tr') \<and> tracked T rs ms tr0 (k + n) s' tr'"
proof -
  let ?U = "r_receipt_id ` set rs"
  let ?trA = "if handle_raw_events opts \<and> ix_processBlock ix \<noteq> None then tr @ [EvProcessBlock m] else tr"
  have tA: "tracked T rs ms tr0 k s ?trA"
    using t by (simp add: tracked_event for_tx_def)
  then have o: "own_ok T ?U s" and w: "pending_wf s" by (simp_all add: tracked_def)
  from foreign_tx_loop[OF nt filter_none[OF txs] o w, of m opts ?trA] obtain s1 tr1 where
    l1: "tx_loop ix m opts (txs_of m) s ?trA = (None, s1, tr1)" and c1: "calm T ?U s ?trA s1 tr1" by blast
  from tracked_calm[OF tA c1 closed] have t1: "tracked T rs ms tr0 k s1 tr1" .
  from receipt_loop_tracked[OF nt len d hne pp flag hook closed causal rcs b h t1] obtain s2 tr2 where
    l2: "receipt_loop ix m opts (rcs_of m) s1 tr1 = (None, s2, tr2)"
    and t2: "tracked T rs ms tr0 (k + n) s2 tr2" by blast
  let ?trB = "if ix_processBlockEnd ix \<noteq> None then tr2 @ [EvProcessBlockEnd m] else tr2"
  have tB: "tracked T rs ms tr0 (k + n) s2 ?trB"
    using t2 by (simp add: tracked_event for_tx_def)
  have "processBlock ix m opts s tr = (None, s2, ?trB)"
    unfolding processBlock_flat[OF nt] l1 andThen_None l2 ..
  with tB show ?thesis by blast
qed

lemma block_tracked_first:
  assumes nt: "never_throws ix" and len: "length ms = length rs"
    and d: "distinct (map r_receipt_id rs)" and hne: "tx_hash T \<noteq> []"
    and pp: "preprocess opts" and flag: "handle_preprocessed_transactions_by_indexer opts"
    and new: "preprocess_new_transactions opts"
    and hook: "ix_onTransaction ix \<noteq> None"
    and closed: "set (tx_receipt_ids T) \<union> (\<Union>r\<in>set rs. set (r_receipt_ids r)) \<subseteq> r_receipt_id ` set rs"
    and causal: "\<forall>j<length rs. r_receipt_id (rs ! j) \<in>
        set (tx_receipt_ids T) \<union> (\<Union>r\<in>set (take j rs). set (r_receipt_ids r))"
    and ne: "rs \<noteq> []"
    and txs: "filter (\<lambda>t. \<not> foreign_tx T (r_receipt_id ` set rs) t) (txs_of m) = [T]"
    and rcs: "filter (\<lambda>r. \<not> foreign_rc (r_receipt_id ` set rs) r) (rcs_of m) = take n (drop 0 rs)"
    and b: "n \<le> length rs" and h: "\<And>j. j < n \<Longrightarrow> ms ! j = m"
    and o: "own_ok T (r_receipt_id ` set rs) s" and w: "pending_wf s"
  shows "\<exists>s' tr'. processBlock ix m opts s tr = (None, s', tr') \<and> tracked T rs ms tr n s' tr'"
proof -
  let ?U = "r_receipt_id ` set rs"
  let ?trA = "if handle_raw_events opts \<and> ix_processBlock ix \<noteq> None then tr @ [EvProcessBlock m] else tr"
  have fA: "filter (for_tx T) ?trA = filter (for_tx T) tr" by (simp add: for_tx_def)
  from closed have sub: "set (tx_receipt_ids T) \<subseteq> ?U" by simp
  from tx_phase_first[OF nt pp new sub txs o w, of m ?trA] obtain s1 tr1 where
    l1: "tx_loop ix m opts (txs_of m) s ?trA = (None, s1, tr1)"
    and o1: "own_ok T ?U s1" and w1: "pending_wf s1"
    and f1: "filter (for_tx T) tr1 = filter (for_tx T) ?trA"
    and t1: "Topen T (fold (\<lambda>r. Map_set r None) (tx_receipt_ids T) []) s1"
    by blast
  have tr1: "tracked T rs ms tr 0 s1 tr1"
    unfolding tracked_def using ne o1 w1 f1 fA t1 new_mapping_Mstate[of T rs ms] by auto
  have b': "0 + n \<le> length rs" using b by simp
  have h': "ms ! j = m" if "0 \<le> j" "j < 0 + n" for j using h[of j] that by simp
  from receipt_loop_tracked[OF nt len d hne pp flag hook closed causal rcs b' h' tr1] obtain s2 tr2 where
    l2: "receipt_loop ix m opts (rcs_of m) s1 tr1 = (None, s2, tr2)"
    and t2: "tracked T rs ms tr n s2 tr2" by auto
  let ?trB = "if ix_processBlockEnd ix \<noteq> None then tr2 @ [EvProcessBlockEnd m] else tr2"
  have tB: "tracked T rs ms tr n s2 ?trB"
    using t2 by (simp add: tracked_event for_tx_def)
  have "processBlock ix m opts s tr = (None, s2, ?trB)"
    unfolding processBlock_flat[OF nt] l1 andThen_None l2 ..
  with tB show ?thesis by blast
qed

lemma feed_tracked:
  assumes nt: "never_throws ix" and hook: "ix_onTransaction ix \<noteq> None" and hne: "tx_hash T \<noteq> []"
    and len: "length rss = length inputs" and rs: "rs = concat rss" and ms: "ms = homes rss (map fst inputs)"
    and ne: "rs \<noteq> []"
    and d: "distinct (map r_receipt_id rs)"
    and opts: "\<forall>i<length inputs. preprocess (snd (inputs ! i)) \<and>
                 handle_preprocessed_transactions_by_indexer (snd (inputs ! i))"
      "preprocess_new_transactions (snd (inputs ! 0))"
    and txs: "\<forall>i<length inputs. filter (\<lambda>t. \<not> foreign_tx T (r_receipt_id ` set rs) t) (txs_of (fst (inputs ! i))) =
                 (if i = 0 then [T] else [])"
    and rcs: "\<forall>i<length inputs. filter (\<lambda>r. \<not> foreign_rc (r_receipt_id ` set rs) r) (rcs_of (fst (inputs ! i))) = rss ! i"
    and causal: "\<forall>j<length rs. r_receipt_id (rs ! j) \<in>
        set (tx_receipt_ids T) \<union> (\<Union>r\<in>set (take j rs). set (r_receipt_ids r))"
    and closed: "set (tx_receipt_ids T) \<union> (\<Union>r\<in>set rs. set (r_receipt_ids r)) \<subseteq> r_receipt_id ` set rs"
    and o: "own_ok T (r_receipt_id ` set rs) s0" and w: "pending_wf s0"
  shows "j < length inputs \<Longrightarrow>
     \<exists>es s tr. feed ix (take (Suc j) inputs) s0 tr0 = (es, s, tr) \<and> list_all (\<lambda>e. e = None) es \<and>
        tracked T rs ms tr0 (length (concat (take (Suc j) rss))) s tr"
proof (induction j)
  case 0
  let ?m = "fst (inputs ! 0)" and ?o = "snd (inputs ! 0)"
  have lm: "length ms = length rs" unfolding ms rs by (rule homes_length) (simp add: len)
  have i: "0 < length rss" using 0 len by simp
  have lb: "length (map fst inputs) = length rss" using len by simp
  have k0: "0 = length (concat (take 0 rss))" by simp
  note sl = block_slice[OF i lb k0, folded rs ms]
  have r: "filter (\<lambda>r. \<not> foreign_rc (r_receipt_id ` set rs) r) (rcs_of ?m) = take (length (rss ! 0)) (drop 0 rs)"
    using rcs 0 sl(1) by simp
  have t: "filter (\<lambda>t. \<not> foreign_tx T (r_receipt_id ` set rs) t) (txs_of ?m) = [T]"
    using txs 0 by simp
  have hh: "ms ! j = ?m" if "j < length (rss ! 0)" for j
    using sl(2)[of j] that 0 by simp
  have bb: "length (rss ! 0) \<le> length rs" using sl(4) by simp
  from opts 0 have p: "preprocess ?o" "handle_preprocessed_transactions_by_indexer ?o" by auto
  from block_tracked_first[OF nt lm d hne p opts(2) hook closed causal ne t r bb hh o w, of tr0]
  obtain s' tr' where b: "processBlock ix ?m ?o s0 tr0 = (None, s', tr')"
    and tk: "tracked T rs ms tr0 (length (rss ! 0)) s' tr'" by blast
  have "take (Suc 0) inputs = [inputs ! 0]" using 0 by (cases inputs) simp_all
  then have "feed ix (take (Suc 0) inputs) s0 tr0 = ([None], s', tr')"
    using b by (cases "inputs ! 0") simp
  moreover have "length (concat (take (Suc 0) rss)) = length (rss ! 0)"
    using i by (cases rss) simp_all
  ultimately show ?case using tk by simp
next
  case (Suc j)
  then have j: "j < length inputs" and sj: "Suc j < length inputs" by simp_all
  let ?k = "length (concat (take (Suc j) rss))"
  from Suc.IH[OF j] obtain es s tr where
    f: "feed ix (take (Suc j) inputs) s0 tr0 = (es, s, tr)" and e: "list_all (\<lambda>e. e = None) es"
    and tk: "tracked T rs ms tr0 ?k s tr" by blast
  let ?m = "fst (inputs ! Suc j)" and ?o = "snd (inputs ! Suc j)"
  have lm: "length ms = length rs" unfolding ms rs by (rule homes_length) (simp add: len)
  have i: "Suc j < length rss" using sj len by simp
  have lb: "length (map fst inputs) = length rss" using len by simp
  note sl = block_slice[OF i lb refl, folded rs ms]
  have r: "filter (\<lambda>r. \<not> foreign_rc (r_receipt_id ` set rs) r) (rcs_of ?m) =
      take (length (rss ! Suc j)) (drop ?k rs)"
    using rcs sj sl(1) by simp
  have t: "filter (\<lambda>t. \<not> foreign_tx T (r_receipt_id ` set rs) t) (txs_of ?m) = []"
    using txs sj by simp
  have hh: "ms ! i = ?m" if "?k \<le> i" "i < ?k + length (rss ! Suc j)" for i
    using sl(2)[OF that] sj by simp
  from opts sj have p: "preprocess ?o" "handle_preprocessed_transactions_by_indexer ?o" by auto
  from block_tracked_later[OF nt lm d hne p hook closed causal t r sl(4) hh tk]
  obtain s' tr' where b: "processBlock ix ?m ?o s tr = (None, s', tr')"
    and tk': "tracked T rs ms tr0 (?k + length (rss ! Suc j)) s' tr'" by blast
  have "take (Suc (Suc j)) inputs = take (Suc j) inputs @ [inputs ! Suc j]"
    using sj by (rule take_Suc_conv_app_nth)
  with feed_snoc[OF f b] have "feed ix (take (Suc (Suc j)) inputs) s0 tr0 = (es @ [None], s', tr')"
    by simp
  with e tk' sl(3) show ?case by auto
qed

text \<open>
  Claim C1. With preprocessing on: let the transaction \<open>T\<close> be registered in the
  first of \<open>N \<ge> 1\<close> consecutive blocks and let its receipts resolve in these blocks,
  \<open>rss ! i\<close> being the receipts of \<open>T\<close> in block \<open>i\<close> in processing order (none, one
  or several of them; the last block holds at least one). Each receipt id is an
  initial id of \<open>T\<close> or a follow-on id of an earlier receipt, and every id \<open>T\<close> is
  owed is the id of one of the receipts. Everything else in the blocks is foreign
  to \<open>T\<close> (another hash, other receipt ids), the hooks do not throw,
  \<open>onTransaction\<close> is defined and the options emit correlated events. Then
  \<open>onTransaction\<close> is not called for \<open>T\<close> during the first \<open>N - 1\<close> blocks and is
  called for it exactly once during the last one, with that block as its message
  and with a receipt list that holds exactly the resolved receipts of \<open>T\<close>, each
  with the block it resolved in; \<open>T\<close> is no longer open afterwards.
\<close>

theorem completed_exactly_once:
  assumes hooks: "never_throws ix" "ix_onTransaction ix \<noteq> None"
    and hash: "tx_hash T \<noteq> []"
    and len: "inputs \<noteq> []" "length rss = length inputs" "last rss \<noteq> []"
    and rs: "rs = concat rss"
    and opts: "\<forall>i<length inputs. preprocess (snd (inputs ! i)) \<and>
                 handle_preprocessed_transactions_by_indexer (snd (inputs ! i))"
      "preprocess_new_transactions (snd (inputs ! 0))"
    and txs: "\<forall>i<length inputs.
        filter (\<lambda>t. \<not> foreign_tx T (r_receipt_id ` set rs) t) (txs_of (fst (inputs ! i))) =
          (if i = 0 then [T] else [])"
    and rcs: "\<forall>i<length inputs.
        filter (\<lambda>r. \<not> foreign_rc (r_receipt_id ` set rs) r) (rcs_of (fst (inputs ! i))) = rss ! i"
    and ids: "distinct (map r_receipt_id rs)"
    and causal: "\<forall>k<length rs. r_receipt_id (rs ! k) \<in>
        set (tx_receipt_ids T) \<union> (\<Union>r\<in>set (take k rs). set (r_receipt_ids r))"
    and closed: "set (tx_receipt_ids T) \<union> (\<Union>r\<in>set rs. set (r_receipt_ids r)) \<subseteq> r_receipt_id ` set rs"
    and fresh: "list_all (\<lambda>(r, h). h \<noteq> tx_hash T) (receiptToTx s0)" "pending_wf s0"
  shows "\<exists>es s tr es' s' tr' RS.
      feed ix (butlast inputs) s0 tr0 = (es, s, tr) \<and>
      filter (for_tx T) tr = filter (for_tx T) tr0 \<and>
      feed ix inputs s0 tr0 = (es', s', tr') \<and>
      list_all (\<lambda>e. e = None) es' \<and>
      filter (for_tx T) tr' =
        filter (for_tx T) tr0 @
          [EvOnTransaction \<lparr>ct_transaction = T, ct_receipts = RS\<rparr> (fst (last inputs))] \<and>
      set RS = set (procs rs (homes rss (map fst inputs))) \<and> length RS = length rs \<and>
      Map_get (pendingTransactions s') (tx_hash T) = None"
proof -
  define ms where "ms = homes rss (map fst inputs)"
  let ?n = "length inputs - 1"
  from len(1) have n: "?n < length inputs" "Suc ?n = length inputs" by (cases inputs; simp)+
  from len(1,2) have rne: "rss \<noteq> []" by auto
  have cat: "rs = concat (butlast rss) @ last rss"
    unfolding rs by (subst append_butlast_last_id[OF rne, symmetric]) simp
  with len(3) have ne: "rs \<noteq> []" by simp
  from fresh(1) have o: "own_ok T (r_receipt_id ` set rs) s0" by (auto simp: own_ok_def list_all_iff)
  note ft = feed_tracked[OF hooks hash len(2) rs ms_def ne ids opts txs rcs causal closed o fresh(2), of _ tr0]
  \<comment> \<open>all the blocks\<close>
  from ft[OF n(1)] obtain es' s' tr' where
    full: "feed ix (take (Suc ?n) inputs) s0 tr0 = (es', s', tr')" and e': "list_all (\<lambda>e. e = None) es'"
    and tk: "tracked T rs ms tr0 (length (concat (take (Suc ?n) rss))) s' tr'" by blast
  have "take (Suc ?n) rss = rss" using n(2) len(2) by simp
  with tk have "tracked T rs ms tr0 (length rs) s' tr'" by (simp add: rs)
  then obtain RS where gone: "Map_get (pendingTransactions s') (tx_hash T) = None"
    and f': "filter (for_tx T) tr' =
        filter (for_tx T) tr0 @ [EvOnTransaction \<lparr>ct_transaction = T, ct_receipts = RS\<rparr> (last ms)]"
    and RS: "set RS = set (procs rs ms)" "length RS = length rs"
    by (auto simp: tracked_def)
  have "last ms = last (map fst inputs)"
    unfolding ms_def by (rule homes_last) (use len rne in simp_all)
  also have "\<dots> = fst (last inputs)" using len(1) by (simp add: last_map)
  finally have la: "last ms = fst (last inputs)" .
  have full': "feed ix inputs s0 tr0 = (es', s', tr')" using full n(2) by simp
  \<comment> \<open>all but the last block\<close>
  have "\<exists>es s tr. feed ix (butlast inputs) s0 tr0 = (es, s, tr) \<and>
      filter (for_tx T) tr = filter (for_tx T) tr0"
  proof (cases "?n = 0")
    case True
    then have "butlast inputs = []" using n(2) by (cases inputs) (auto split: if_splits)
    then show ?thesis by simp
  next
    case False
    then obtain j where j: "?n = Suc j" by (cases ?n) auto
    then have jl: "j < length inputs" using n(1) by simp
    from ft[OF jl] obtain es s tr where
      f: "feed ix (take (Suc j) inputs) s0 tr0 = (es, s, tr)"
      and t: "tracked T rs ms tr0 (length (concat (take (Suc j) rss))) s tr" by blast
    have bl: "butlast inputs = take (Suc j) inputs" "butlast rss = take (Suc j) rss"
      using j len(2) by (simp_all add: butlast_conv_take)
    have "length (concat (take (Suc j) rss)) < length rs"
      unfolding bl(2)[symmetric] using len(3) by (subst cat) simp
    with t have "filter (for_tx T) tr = filter (for_tx T) tr0" by (simp add: tracked_def)
    with f bl(1) show ?thesis by simp
  qed
  then obtain es s tr where pre: "feed ix (butlast inputs) s0 tr0 = (es, s, tr)"
    "filter (for_tx T) tr = filter (for_tx T) tr0" by blast
  have f'': "filter (for_tx T) tr' =
      filter (for_tx T) tr0 @ [EvOnTransaction \<lparr>ct_transaction = T, ct_receipts = RS\<rparr> (fst (last inputs))]"
    using f' la by simp
  have RS': "set RS = set (procs rs (homes rss (map fst inputs)))" using RS(1) by (simp add: ms_def)
  from pre full' e' f'' RS' RS(2) gone show ?thesis by blast
qed

text \<open>
  A transaction registered in block \<open>100\<close> whose three receipts resolve in the
  blocks \<open>101\<close> and \<open>102\<close>, beside other transactions and receipts.
\<close>

theorem completed_exactly_once_witness:
  "filter (for_tx stag_tx) (snd (snd (feed watcher (butlast stag_inputs) new_InternalIndexerState []))) = [] \<and>
   filter (for_tx stag_tx) (snd (snd (feed watcher stag_inputs new_InternalIndexerState []))) =
     [EvOnTransaction
        \<lparr>ct_transaction = stag_tx,
         ct_receipts =
           [\<lparr>receipt = ex_receipt ''r1'' (SuccessReceiptId ''r2'') [''r2'', ''r3''], block_height = 101,
             block_timestamp_nanosec = ''17''\<rparr>,
            \<lparr>receipt = ex_receipt ''r2'' (SuccessValue None) [], block_height = 102,
             block_timestamp_nanosec = ''17''\<rparr>,
            \<lparr>receipt = ex_receipt ''r3'' Failure [], block_height = 102,
             block_timestamp_nanosec = ''17''\<rparr>]\<rparr>
        (fst (last stag_inputs))] \<and>
   Map_get (pendingTransactions (fst (snd (feed watcher stag_inputs new_InternalIndexerState [])))) ''T'' = None"
proof -
  have h1: "never_throws watcher" "ix_onTransaction watcher \<noteq> None"
    by (simp_all add: never_throws_def hook_resolves_def watcher_def no_hooks_def)
  have h2: "tx_hash stag_tx \<noteq> []" "stag_inputs \<noteq> []" "length stag_receipts = length stag_inputs"
    "last stag_receipts \<noteq> []"
    by (simp_all add: stag_tx_def ex_tx_def stag_inputs_def stag_receipts_def)
  define rs where "rs = concat stag_receipts"
  have rs: "rs = [ex_receipt ''r1'' (SuccessReceiptId ''r2'') [''r2'', ''r3''],
      ex_receipt ''r2'' (SuccessValue None) [], ex_receipt ''r3'' Failure []]"
    by (simp add: rs_def stag_receipts_def)
  have U: "r_receipt_id ` set rs = {''r1'', ''r2'', ''r3''}"
    by (auto simp: rs ex_receipt_def)
  have three: "(\<forall>i<length stag_inputs. P i) = (P 0 \<and> P 1 \<and> P 2)" for P
    by (auto simp: stag_inputs_def less_Suc_eq numeral_2_eq_2)
  have three': "(\<forall>i<length rs. P i) = (P 0 \<and> P 1 \<and> P 2)" for P
    by (auto simp: rs less_Suc_eq numeral_2_eq_2)
  have h3: "\<forall>i<length stag_inputs. preprocess (snd (stag_inputs ! i)) \<and>
                 handle_preprocessed_transactions_by_indexer (snd (stag_inputs ! i))"
    "preprocess_new_transactions (snd (stag_inputs ! 0))"
    unfolding three by (simp_all add: stag_inputs_def in_range_options_def)
  have h4: "\<forall>i<length stag_inputs.
        filter (\<lambda>t. \<not> foreign_tx stag_tx (r_receipt_id ` set rs) t) (txs_of (fst (stag_inputs ! i))) =
          (if i = 0 then [stag_tx] else [])"
    unfolding three U
    by (simp add: stag_inputs_def txs_of_def ex_message_def foreign_tx_def stag_tx_def ex_tx_def)
  have h5: "\<forall>i<length stag_inputs.
        filter (\<lambda>r. \<not> foreign_rc (r_receipt_id ` set rs) r) (rcs_of (fst (stag_inputs ! i))) =
          stag_receipts ! i"
    unfolding three U
    by (simp add: stag_inputs_def rcs_of_def ex_message_def foreign_rc_def stag_receipts_def ex_receipt_def)
  have h6: "distinct (map r_receipt_id rs)"
    by (simp add: rs ex_receipt_def)
  have h7: "\<forall>k<length rs. r_receipt_id (rs ! k) \<in>
        set (tx_receipt_ids stag_tx) \<union> (\<Union>r\<in>set (take k rs). set (r_receipt_ids r))"
    unfolding three' by (simp add: rs ex_receipt_def stag_tx_def ex_tx_def numeral_2_eq_2)
  have h8: "set (tx_receipt_ids stag_tx) \<union> (\<Union>r\<in>set rs. set (r_receipt_ids r))
      \<subseteq> r_receipt_id ` set rs"
    unfolding U by (simp add: rs ex_receipt_def stag_tx_def ex_tx_def)
  have h9: "list_all (\<lambda>(r, h). h \<noteq> tx_hash stag_tx) (receiptToTx new_InternalIndexerState)"
    "pending_wf new_InternalIndexerState"
    by (simp_all add: new_InternalIndexerState_def pending_wf_def)
  from completed_exactly_once[OF h1 h2 rs_def h3 h4 h5 h6 h7 h8 h9, of "[]"]
  obtain es s tr es' s' tr' RS where
    a: "feed watcher (butlast stag_inputs) new_InternalIndexerState [] = (es, s, tr)"
      "filter (for_tx stag_tx) tr = []"
    and b: "feed watcher stag_inputs new_InternalIndexerState [] = (es', s', tr')"
      "filter (for_tx stag_tx) tr' =
         [EvOnTransaction \<lparr>ct_transaction = stag_tx, ct_receipts = RS\<rparr> (fst (last stag_inputs))]"
      "Map_get (pendingTransactions s') (tx_hash stag_tx) = None"
    by auto
  have c: "filter (for_tx stag_tx) (snd (snd (feed watcher stag_inputs new_InternalIndexerState []))) =
     [EvOnTransaction
        \<lparr>ct_transaction = stag_tx,
         ct_receipts =
           [\<lparr>receipt = ex_receipt ''r1'' (SuccessReceiptId ''r2'') [''r2'', ''r3''], block_height = 101,
             block_timestamp_nanosec = ''17''\<rparr>,
            \<lparr>receipt = ex_receipt ''r2'' (SuccessValue None) [], block_height = 102,
             block_timestamp_nanosec = ''17''\<rparr>,
            \<lparr>receipt = ex_receipt ''r3'' Failure [], block_height = 102,
             block_timestamp_nanosec = ''17''\<rparr>]\<rparr>
        (fst (last stag_inputs))]"
    by code_simp
  from a b c show ?thesis
    by (simp add: stag_tx_def ex_tx_def)
qed


text \<open>
  The hash must not be the empty string: \<open>txId && options.preprocess\<close> is false for
  it, so the receipt of such a transaction is never attributed to it.
\<close>

lemma empty_hash_not_correlated:
  "feed watcher
     [(ex_message 100 [hashless_tx] [ex_receipt ''r1'' (SuccessValue None) []], in_range_options 100)]
     new_InternalIndexerState [] =
   ([None],
    \<lparr>pendingTransactions = [([], \<lparr>it_transaction = hashless_tx, it_receipts = [(''r1'', None)]\<rparr>)],
     receiptToTx = [(''r1'', [])]\<rparr>,
    [])"
  by code_simp



end
